theory Spec2Isabelle
  imports Main "HOL-Library.AList"
begin

section \<open>The external collaborators\<close>

text \<open>
  \<^verbatim>\<open>VideoPlayerCore.c\<close> drives three libraries it does not contain: the byte source
  (\<^verbatim>\<open>open\<close>, \<^verbatim>\<open>read\<close>), the Ogg framing layer (\<^verbatim>\<open>ogg_sync_*\<close>, \<^verbatim>\<open>ogg_stream_*\<close>,
  \<^verbatim>\<open>ogg_page_*\<close>) and the Theora header parser (\<^verbatim>\<open>th_decode_headerin\<close>,
  \<^verbatim>\<open>th_decode_alloc\<close>). The framing layer is modelled by what it delivers (pages out of
  bytes, packets out of pages); the header parser and the GLib error helpers are
  parameters, so every theorem holds for every behaviour they may have.
\<close>

type_synonym ogg_packet = "nat list"

text \<open>
  A page carries lacing segments. \<open>Cont\<close> is a full segment (the packet goes on),
  \<open>Term\<close> a segment that ends its packet, \<open>Hole\<close> the mark the stream layer leaves
  where data was lost. The serial number is a C \<^verbatim>\<open>int\<close>; the code only compares it.
\<close>

datatype lace = Cont "nat list" | Term "nat list" | Hole

record ogg_page =
  serialno :: int
  bos :: bool
  body :: "lace list"

record ogg_stream_state =
  os_serialno :: int
  lacing :: "lace list"

definition ogg_stream_init :: "int \<Rightarrow> ogg_stream_state" where
  "ogg_stream_init s = \<lparr>os_serialno = s, lacing = []\<rparr>"

text \<open>\<^verbatim>\<open>ogg_stream_pagein\<close> refuses a page of another serial number.\<close>

definition ogg_stream_pagein :: "ogg_stream_state \<Rightarrow> ogg_page \<Rightarrow> ogg_stream_state" where
  "ogg_stream_pagein os og =
     (if serialno og \<noteq> os_serialno os then os
      else os\<lparr>lacing := lacing os @ body og\<rparr>)"

fun take_packet :: "lace list \<Rightarrow> (ogg_packet \<times> lace list) option" where
  "take_packet [] = None"
| "take_packet (Term b # q) = Some (b, q)"
| "take_packet (Cont b # q) =
     (case take_packet q of None \<Rightarrow> None | Some (d, r) \<Rightarrow> Some (b @ d, r))"
| "take_packet (Hole # q) = None"

text \<open>
  \<^verbatim>\<open>ogg_stream_packetout(os, &op)\<close>: 1 and the packet in \<open>op\<close>, 0 when no whole
  packet is buffered, -1 when it steps over a hole. \<open>op\<close> is left alone unless the
  result is 1.
\<close>

definition ogg_stream_packetout ::
  "ogg_stream_state \<Rightarrow> ogg_packet \<Rightarrow> int \<times> ogg_stream_state \<times> ogg_packet" where
  "ogg_stream_packetout os op =
     (case lacing os of
        Hole # q \<Rightarrow> (- 1, os\<lparr>lacing := q\<rparr>, op)
      | _ \<Rightarrow> (case take_packet (lacing os) of
                None \<Rightarrow> (0, os, op)
              | Some (d, r) \<Rightarrow> (1, os\<lparr>lacing := r\<rparr>, d)))"

text \<open>
  What the sync layer finds in the bytes it was given: a whole page, or bytes it has
  to skip.
\<close>

datatype sync_item = Page ogg_page | Junk

type_synonym ogg_sync_state = "sync_item list"

text \<open>
  \<^verbatim>\<open>ogg_sync_pageout(oy, &og)\<close>: 1 and the page in \<open>og\<close>, 0 when more bytes are
  needed, -1 when bytes were skipped. \<open>og\<close> is left alone unless the result is 1.
\<close>

definition ogg_sync_pageout ::
  "ogg_sync_state \<Rightarrow> ogg_page \<Rightarrow> int \<times> ogg_sync_state \<times> ogg_page" where
  "ogg_sync_pageout oy og =
     (case oy of
        [] \<Rightarrow> (0, [], og)
      | Junk # r \<Rightarrow> (- 1, r, og)
      | Page p # r \<Rightarrow> (1, r, p))"

text \<open>
  One \<^verbatim>\<open>read(fd, buf, 65536)\<close>: the count it returns, \<^verbatim>\<open>errno\<close> after it, and what
  the bytes it delivered complete in the sync layer. A descriptor is the list of the
  results its reads will give; past the last one \<^verbatim>\<open>read\<close> returns 0.
\<close>

record chunk =
  bytes :: int
  errno :: int
  content :: "sync_item list"

definition sys_read :: "chunk list \<Rightarrow> chunk \<times> chunk list" where
  "sys_read f =
     (case f of
        [] \<Rightarrow> (\<lparr>bytes = 0, errno = 0, content = []\<rparr>, [])
      | c # cs \<Rightarrow> (c, cs))"

definition ogg_sync_wrote :: "ogg_sync_state \<Rightarrow> chunk \<Rightarrow> ogg_sync_state" where
  "ogg_sync_wrote oy c = oy @ content c"

text \<open>
  The Theora header state is opaque: \<^verbatim>\<open>th_info\<close> and \<^verbatim>\<open>th_comment\<close> are numbers,
  \<^verbatim>\<open>th_setup_info*\<close> and \<^verbatim>\<open>th_dec_ctx*\<close> are pointers (\<open>None\<close> is \<^verbatim>\<open>NULL\<close>).
\<close>

type_synonym th_headers = "nat \<times> nat \<times> nat option"

record ext =
  sys_open :: "string \<Rightarrow> int \<times> int \<times> chunk list"
  th_decode_headerin :: "th_headers \<Rightarrow> ogg_packet \<Rightarrow> int \<times> th_headers"
  th_decode_alloc :: "nat \<Rightarrow> nat option \<Rightarrow> nat option"
  g_file_error_from_errno :: "int \<Rightarrow> int"
  g_strerror :: "int \<Rightarrow> string"

definition TH_ENOTFORMAT :: int where
  "TH_ENOTFORMAT = - 21"

section \<open>Errors\<close>

text \<open>
  Modelled from the spec: \<^verbatim>\<open>VideoPlayer.h\<close>, which declares the enumeration
  \<^verbatim>\<open>VideoPlayerError\<close>, is not among the sources. These are the two codes that
  \<^verbatim>\<open>VideoPlayerCore.c\<close> raises in the domain \<^verbatim>\<open>VIDEO_PLAYER_ERROR\<close>; the specification
  calls them \<open>NoTargetStreamFound\<close> and \<open>BadHeaders\<close>.
\<close>

datatype VideoPlayerError = VIDEO_PLAYER_NO_VIDEO | VIDEO_PLAYER_BAD_HEADERS

text \<open>A \<^verbatim>\<open>GError\<close>: the constructor is the domain, then the code and the message.\<close>

datatype gerror =
  G_FILE_ERROR int string
| VIDEO_PLAYER_ERROR VideoPlayerError string

text \<open>
  What a \<^verbatim>\<open>gboolean f(player, err)\<close> does: \<open>TRUE\<close>, \<open>FALSE\<close> with \<open>*err\<close> set, or
  it reads through a pointer that is \<^verbatim>\<open>NULL\<close> or freed (\<open>Undefined\<close>).
\<close>

datatype outcome = TRUE | FALSE gerror | Undefined

text \<open>How one pass through a loop body ends.\<close>

datatype ctl = Continue | Break | Return outcome

section \<open>The player\<close>

text \<open>
  The calls made to the collaborators, in order. \<open>Pagein\<close> and \<open>Packetout\<close> are calls
  on a live stream, by its address (and with the result); \<open>Pagein_freed\<close> and
  \<open>Packetout_freed\<close> are the same calls handed the address of a stream already freed.
\<close>

datatype call =
  Pageout int
| Read int int
| Pagein nat
| Pagein_freed nat
| Table_insert int nat
| Table_remove int
| Packetout nat int
| Packetout_freed nat
| Headerin int
| Decode_alloc
| Decode_free nat
| Setup_free nat
| Comment_clear
| Info_clear
| Table_destroy
| Sync_clear
| Close int
| Free_player

text \<open>
  \<^verbatim>\<open>struct _VideoPlayer\<close>, and below it the world it lives in: what the descriptor
  will still deliver, the \<^verbatim>\<open>ogg_stream_state\<close> objects allocated by \<^verbatim>\<open>g_new\<close> (by
  address; \<open>stream_table\<close> and \<open>vstream\<close> hold addresses), the next fresh address,
  and the calls made so far. The hash table is the list of its entries, one for a key.
\<close>

record VideoPlayer =
  fd :: int
  osync :: ogg_sync_state
  stream_table :: "(int \<times> nat) list"
  current_page :: ogg_page
  have_video :: bool
  vstream :: "nat option"
  tinfo :: nat
  tcomment :: nat
  tsetup :: "nat option"
  eof :: bool
  vdecoder :: "nat option"
  input :: "chunk list"
  heap :: "nat \<rightharpoonup> ogg_stream_state"
  brk :: nat
  calls :: "call list"

definition called :: "call \<Rightarrow> VideoPlayer \<Rightarrow> VideoPlayer" where
  "called c p = p\<lparr>calls := calls p @ [c]\<rparr>"

definition g_hash_table_lookup :: "(int \<times> nat) list \<Rightarrow> int \<Rightarrow> nat option" where
  "g_hash_table_lookup t s = map_of t s"

text \<open>
  \<^verbatim>\<open>g_hash_table_remove\<close>: the table was made with \<^verbatim>\<open>destroy_stream\<close> as value
  destructor, so removing an entry clears and frees its stream.
\<close>

definition g_hash_table_remove :: "int \<Rightarrow> VideoPlayer \<Rightarrow> VideoPlayer" where
  "g_hash_table_remove s p =
     (case g_hash_table_lookup (stream_table p) s of
        None \<Rightarrow> called (Table_remove s) p
      | Some a \<Rightarrow> called (Table_remove s)
          (p\<lparr>stream_table := AList.delete s (stream_table p), heap := (heap p)(a := None)\<rparr>))"

section \<open>\<^verbatim>\<open>demux_next_page\<close>\<close>

text \<open>One pass through the loop of lines 58 to 70, its condition included.\<close>

definition page_body :: "ext \<Rightarrow> VideoPlayer \<Rightarrow> ctl \<times> VideoPlayer" where
  "page_body x p =
     (case ogg_sync_pageout (osync p) (current_page p) of (r, oy, og) \<Rightarrow>
        let p1 = called (Pageout r) (p\<lparr>osync := oy, current_page := og\<rparr>) in
        if r \<noteq> 1 then
          (case sys_read (input p1) of (c, rest) \<Rightarrow>
             let p2 = called (Read (bytes c) (errno c)) (p1\<lparr>input := rest\<rparr>) in
             if bytes c = 0 then (Return TRUE, p2\<lparr>eof := True\<rparr>)
             else if bytes c < 0 then
               (Return (FALSE (G_FILE_ERROR (g_file_error_from_errno x (errno c))
                  (''Failed to read video: '' @ g_strerror x (errno c)))), p2)
             else (Continue, p2\<lparr>osync := ogg_sync_wrote (osync p2) c\<rparr>))
        else (Break, p1))"

function page_loop :: "ext \<Rightarrow> VideoPlayer \<Rightarrow> ctl \<times> VideoPlayer" where
  "page_loop x p =
     (case page_body x p of
        (Continue, p') \<Rightarrow> page_loop x p'
      | (c, p') \<Rightarrow> (c, p'))"
  by pat_completeness auto

text \<open>Lines 72 to 85: hand the page to its stream.\<close>

definition dispatch_page :: "VideoPlayer \<Rightarrow> outcome \<times> VideoPlayer" where
  "dispatch_page p =
     (let s = serialno (current_page p) in
      case g_hash_table_lookup (stream_table p) s of
        Some a \<Rightarrow>
          (case heap p a of
             None \<Rightarrow> (Undefined, called (Pagein_freed a) p)
           | Some os \<Rightarrow>
               (TRUE, called (Pagein a)
                  (p\<lparr>heap := (heap p)(a \<mapsto> ogg_stream_pagein os (current_page p))\<rparr>)))
      | None \<Rightarrow>
          if bos (current_page p) then
            (let a = brk p in
             (TRUE, called (Pagein a) (called (Table_insert s a)
                (p\<lparr>brk := Suc a,
                   stream_table := AList.update s a (stream_table p),
                   heap := (heap p)(a \<mapsto>
                     ogg_stream_pagein (ogg_stream_init s) (current_page p))\<rparr>))))
          else (TRUE, p))"

definition demux_next_page :: "ext \<Rightarrow> VideoPlayer \<Rightarrow> outcome \<times> VideoPlayer" where
  "demux_next_page x p =
     (case page_loop x p of
        (Return r, p') \<Rightarrow> (r, p')
      | (_, p') \<Rightarrow> dispatch_page p')"

section \<open>\<^verbatim>\<open>demux_headers\<close>\<close>

text \<open>
  Lines 96 to 127: what the first loop does with a beginning-of-stream page once
  \<^verbatim>\<open>demux_next_page\<close> has routed it. The local \<^verbatim>\<open>pkt\<close> is not initialised; it is
  read only after \<^verbatim>\<open>ogg_stream_packetout\<close> has filled it.
\<close>

definition scan_page :: "ext \<Rightarrow> VideoPlayer \<Rightarrow> ctl \<times> VideoPlayer" where
  "scan_page x p =
     (let s = serialno (current_page p) in
      if \<not> have_video p then
        (case g_hash_table_lookup (stream_table p) s of
           None \<Rightarrow> (Return Undefined, p)
         | Some a \<Rightarrow>
             (case heap p a of
                None \<Rightarrow> (Return Undefined, called (Packetout_freed a) p)
              | Some os \<Rightarrow>
                  (case ogg_stream_packetout os [] of (r, os', pkt) \<Rightarrow>
                     let p1 = called (Packetout a r) (p\<lparr>heap := (heap p)(a \<mapsto> os')\<rparr>) in
                     if r \<noteq> 1 then
                       (Return (FALSE (VIDEO_PLAYER_ERROR VIDEO_PLAYER_BAD_HEADERS
                          ''Bad headers in video file.'')), p1)
                     else
                       (case th_decode_headerin x (tinfo p1, tcomment p1, tsetup p1) pkt of
                          (header_status, ti, tc, ts) \<Rightarrow>
                            let p2 = called (Headerin header_status)
                                  (p1\<lparr>tinfo := ti, tcomment := tc, tsetup := ts\<rparr>) in
                            if header_status = TH_ENOTFORMAT then
                              (Continue, g_hash_table_remove s p2)
                            else if header_status < 0 then
                              (Return (FALSE (VIDEO_PLAYER_ERROR VIDEO_PLAYER_BAD_HEADERS
                                 ''Bad headers in Theora stream.'')), p2)
                            else
                              (Continue, p2\<lparr>have_video := True, vstream := Some a\<rparr>)))))
      else (Continue, g_hash_table_remove s p))"

text \<open>
  One pass through the loop of lines 91 to 128. \<open>Break\<close> is the jump to
  \<^verbatim>\<open>got_all_headers\<close>; when \<^verbatim>\<open>demux_next_page\<close> fails the loop ends and line 130
  returns \<^verbatim>\<open>FALSE\<close> with the error it has set.
\<close>

definition discover_body :: "ext \<Rightarrow> VideoPlayer \<Rightarrow> ctl \<times> VideoPlayer" where
  "discover_body x p =
     (case demux_next_page x p of
        (TRUE, p1) \<Rightarrow>
          if eof p1 \<or> \<not> bos (current_page p1) then (Break, p1)
          else scan_page x p1
      | (r, p1) \<Rightarrow> (Return r, p1))"

text \<open>What is still to come from the descriptor and the sync buffer.\<close>

definition pending :: "VideoPlayer \<Rightarrow> nat" where
  "pending p = length (osync p) + sum_list (map (\<lambda>c. Suc (length (content c))) (input p))"

function discover :: "ext \<Rightarrow> VideoPlayer \<Rightarrow> ctl \<times> VideoPlayer" where
  "discover x p =
     (case discover_body x p of
        (Continue, p') \<Rightarrow> discover x p'
      | (c, p') \<Rightarrow> (c, p'))"
  by pat_completeness auto

text \<open>Lines 143 to 153: one header packet of the video stream.\<close>

definition feed_packet :: "ext \<Rightarrow> ogg_packet \<Rightarrow> VideoPlayer \<Rightarrow> ctl \<times> VideoPlayer" where
  "feed_packet x pkt p =
     (case th_decode_headerin x (tinfo p, tcomment p, tsetup p) pkt of
        (header_status, ti, tc, ts) \<Rightarrow>
          let p1 = called (Headerin header_status)
                (p\<lparr>tinfo := ti, tcomment := tc, tsetup := ts\<rparr>) in
          if header_status < 0 then
            (Return (FALSE (VIDEO_PLAYER_ERROR VIDEO_PLAYER_BAD_HEADERS
               ''Bad headers in Theora stream.'')), p1)
          else if header_status = 0 then
            (Return TRUE, called Decode_alloc
               (p1\<lparr>vdecoder := th_decode_alloc x (tinfo p1) (tsetup p1)\<rparr>))
          else (Continue, p1))"

text \<open>One pass through the inner loop of lines 142 to 154, its condition included.\<close>

definition drain_body :: "ext \<Rightarrow> VideoPlayer \<Rightarrow> ctl \<times> VideoPlayer" where
  "drain_body x p =
     (case vstream p of
        None \<Rightarrow> (Return Undefined, p)
      | Some a \<Rightarrow>
          (case heap p a of
             None \<Rightarrow> (Return Undefined, called (Packetout_freed a) p)
           | Some os \<Rightarrow>
               (case ogg_stream_packetout os [] of (r, os', pkt) \<Rightarrow>
                  let p1 = called (Packetout a r) (p\<lparr>heap := (heap p)(a \<mapsto> os')\<rparr>) in
                  if r = 1 then feed_packet x pkt p1 else (Break, p1))))"

definition buffered :: "VideoPlayer \<Rightarrow> nat" where
  "buffered p =
     (case vstream p of
        None \<Rightarrow> 0
      | Some a \<Rightarrow> (case heap p a of None \<Rightarrow> 0 | Some os \<Rightarrow> length (lacing os)))"

function drain :: "ext \<Rightarrow> VideoPlayer \<Rightarrow> ctl \<times> VideoPlayer" where
  "drain x p =
     (case drain_body x p of
        (Continue, p') \<Rightarrow> drain x p'
      | (c, p') \<Rightarrow> (c, p'))"
  by pat_completeness auto

text \<open>One pass through the outer loop of lines 140 to 157, its condition included.\<close>

definition collect_body :: "ext \<Rightarrow> VideoPlayer \<Rightarrow> ctl \<times> VideoPlayer" where
  "collect_body x p =
     (if \<not> eof p then
        (case drain x p of
           (Return r, p1) \<Rightarrow> (Return r, p1)
         | (_, p1) \<Rightarrow>
             (case demux_next_page x p1 of
                (TRUE, p2) \<Rightarrow> (Continue, p2)
              | (r, p2) \<Rightarrow> (Return r, p2)))
      else (Break, p))"

function collect :: "ext \<Rightarrow> VideoPlayer \<Rightarrow> ctl \<times> VideoPlayer" where
  "collect x p =
     (case collect_body x p of
        (Continue, p') \<Rightarrow> collect x p'
      | (c, p') \<Rightarrow> (c, p'))"
  by pat_completeness auto

text \<open>\<^verbatim>\<open>demux_headers\<close>: the first loop, \<^verbatim>\<open>got_all_headers\<close>, the second loop.\<close>

definition demux_headers :: "ext \<Rightarrow> VideoPlayer \<Rightarrow> outcome \<times> VideoPlayer" where
  "demux_headers x p =
     (case discover x p of
        (Return r, p1) \<Rightarrow> (r, p1)
      | (_, p1) \<Rightarrow>
          if \<not> have_video p1 then
            (FALSE (VIDEO_PLAYER_ERROR VIDEO_PLAYER_NO_VIDEO
               ''Failed to find a Theora stream in the video file.''), p1)
          else
            (case collect x p1 of
               (Return r, p2) \<Rightarrow> (r, p2)
             | (_, p2) \<Rightarrow>
                 (FALSE (VIDEO_PLAYER_ERROR VIDEO_PLAYER_BAD_HEADERS
                    ''Failed to find all necessary Theora headers.''), p2)))"

section \<open>\<^verbatim>\<open>video_player_destroy\<close> and \<^verbatim>\<open>video_player_new\<close>\<close>

text \<open>
  \<^verbatim>\<open>g_hash_table_destroy\<close> runs \<^verbatim>\<open>destroy_stream\<close> on every stream still in the
  table. The result is the world the freed player leaves behind.
\<close>

definition video_player_destroy :: "VideoPlayer \<Rightarrow> VideoPlayer" where
  "video_player_destroy p =
     (let p1 = (case vdecoder p of None \<Rightarrow> p | Some d \<Rightarrow> called (Decode_free d) p);
          p2 = (case tsetup p1 of None \<Rightarrow> p1 | Some t \<Rightarrow> called (Setup_free t) p1);
          p3 = called Comment_clear p2;
          p4 = called Info_clear p3;
          p5 = called Table_destroy
                 (p4\<lparr>heap := (\<lambda>a. if a \<in> snd ` set (stream_table p4) then None else heap p4 a),
                     stream_table := []\<rparr>);
          p6 = called Sync_clear (p5\<lparr>osync := []\<rparr>);
          p7 = called (Close (fd p6)) p6
      in called Free_player p7)"

text \<open>
  What \<^verbatim>\<open>video_player_new\<close> gives back: the player, or \<^verbatim>\<open>NULL\<close> with \<open>*err\<close> set
  (and the calls made until then), or nothing defined.
\<close>

datatype opened = Handle VideoPlayer | Null gerror "call list" | Crashed

text \<open>
  The player after \<^verbatim>\<open>g_new0\<close>, \<^verbatim>\<open>open\<close>, \<^verbatim>\<open>g_hash_table_new_full\<close>, \<^verbatim>\<open>ogg_sync_init\<close>,
  \<^verbatim>\<open>th_info_init\<close> and \<^verbatim>\<open>th_comment_init\<close>: every field zero but the descriptor.
\<close>

definition blank_player :: "int \<Rightarrow> chunk list \<Rightarrow> VideoPlayer" where
  "blank_player d f =
     \<lparr>fd = d, osync = [], stream_table = [],
      current_page = \<lparr>serialno = 0, bos = False, body = []\<rparr>,
      have_video = False, vstream = None, tinfo = 0, tcomment = 0, tsetup = None,
      eof = False, vdecoder = None,
      input = f, heap = Map.empty, brk = 0, calls = []\<rparr>"

definition video_player_new :: "ext \<Rightarrow> string \<Rightarrow> opened" where
  "video_player_new x filename =
     (case sys_open x filename of (d, e, f) \<Rightarrow>
        let player = blank_player d f in
        if fd player < 0 then
          Null (G_FILE_ERROR (g_file_error_from_errno x e)
                  (''Failed to open video: '' @ g_strerror x e))
               (calls (called Free_player player))
        else
          (case demux_headers x player of
             (TRUE, p) \<Rightarrow> Handle p
           | (FALSE err, p) \<Rightarrow> Null err (calls (video_player_destroy p))
           | (Undefined, p) \<Rightarrow> Crashed))"

section \<open>The error kinds of the specification\<close>

text \<open>
  The specification names four kinds of error. \<open>spec_kind\<close> reads a \<^verbatim>\<open>GError\<close> of the
  code as one of them: the domain \<^verbatim>\<open>G_FILE_ERROR\<close> is the I/O error, and the two codes
  of \<^verbatim>\<open>VIDEO_PLAYER_ERROR\<close> are the kinds of the same name.
\<close>

datatype error_kind = IoError | BadHeaders | NoTargetStreamFound | IncompleteHeaders

fun spec_kind :: "gerror \<Rightarrow> error_kind" where
  "spec_kind (G_FILE_ERROR c m) = IoError"
| "spec_kind (VIDEO_PLAYER_ERROR VIDEO_PLAYER_NO_VIDEO m) = NoTargetStreamFound"
| "spec_kind (VIDEO_PLAYER_ERROR VIDEO_PLAYER_BAD_HEADERS m) = BadHeaders"

section \<open>Reading the model\<close>

text \<open>The calls made from state \<open>p\<close> to the later state \<open>p'\<close>.\<close>

definition since :: "VideoPlayer \<Rightarrow> VideoPlayer \<Rightarrow> call list" where
  "since p p' = drop (length (calls p)) (calls p')"

fun is_Packetout :: "call \<Rightarrow> bool" where
  "is_Packetout (Packetout a r) = True"
| "is_Packetout (Packetout_freed a) = True"
| "is_Packetout c = False"

text \<open>
  The calls of a pass through the loop of \<^verbatim>\<open>demux_next_page\<close> that goes round again:
  no page came out, and the read brought bytes.
\<close>

fun retry :: "call \<Rightarrow> bool" where
  "retry (Pageout r) = (r \<noteq> 1)"
| "retry (Read n e) = (0 < n)"
| "retry c = False"

text \<open>
  What the page synchronizer does not touch: all but the sync buffer, the descriptor,
  the current page, the end-of-input flag and the calls.
\<close>

definition kept :: "VideoPlayer \<Rightarrow> VideoPlayer \<Rightarrow> bool" where
  "kept p q \<longleftrightarrow>
     fd q = fd p \<and> stream_table q = stream_table p \<and> heap q = heap p \<and> brk q = brk p \<and>
     have_video q = have_video p \<and> vstream q = vstream p \<and> tinfo q = tinfo p \<and>
     tcomment q = tcomment p \<and> tsetup q = tsetup p \<and> vdecoder q = vdecoder p"

text \<open>The passes that go round again leave the player as it was, but for what was read.\<close>

definition retried :: "VideoPlayer \<Rightarrow> VideoPlayer \<Rightarrow> call list \<Rightarrow> bool" where
  "retried p q cs \<longleftrightarrow>
     calls q = calls p @ cs \<and> list_all retry cs \<and> kept p q \<and>
     current_page q = current_page p \<and> eof q = eof p"

text \<open>
  Every stream in the table is alive, below the next fresh address, and was initialised
  with the serial number it is registered under.
\<close>

definition table_ok :: "VideoPlayer \<Rightarrow> bool" where
  "table_ok p \<longleftrightarrow>
     distinct (map fst (stream_table p)) \<and>
     (\<forall>(s, a) \<in> set (stream_table p).
        a < brk p \<and> (case heap p a of None \<Rightarrow> False | Some os \<Rightarrow> os_serialno os = s))"

text \<open>
  From \<open>p\<close> to \<open>p'\<close> none of the calls in \<open>E\<close> was made, and the decode context is
  the same.
\<close>

definition without :: "call set \<Rightarrow> VideoPlayer \<Rightarrow> VideoPlayer \<Rightarrow> bool" where
  "without E p p' \<longleftrightarrow>
     (\<exists>cs. calls p' = calls p @ cs \<and> set cs \<inter> E = {}) \<and> vdecoder p' = vdecoder p"

text \<open>
  From \<open>p\<close> to \<open>p'\<close> the last two calls were a header feed that returned 0 and the
  allocation of the decode context, which \<open>p'\<close> holds; none of the calls in \<open>E\<close> was
  made before them.
\<close>

definition allocated :: "ext \<Rightarrow> call set \<Rightarrow> VideoPlayer \<Rightarrow> VideoPlayer \<Rightarrow> bool" where
  "allocated x E p p' \<longleftrightarrow>
     (\<exists>cs. calls p' = calls p @ cs @ [Headerin 0, Decode_alloc] \<and> set cs \<inter> E = {}) \<and>
     vdecoder p' = th_decode_alloc x (tinfo p') (tsetup p')"

text \<open>What the caller of \<^verbatim>\<open>video_player_new\<close> holds afterwards.\<close>

fun failure :: "opened \<Rightarrow> (gerror \<times> call list) option" where
  "failure (Null e cs) = Some (e, cs)"
| "failure r = None"

fun handle :: "opened \<Rightarrow> VideoPlayer option" where
  "handle (Handle p) = Some p"
| "handle r = None"

text \<open>What \<^verbatim>\<open>video_player_destroy\<close> has to release for a player.\<close>

definition releases :: "VideoPlayer \<Rightarrow> call list" where
  "releases p =
     (case vdecoder p of None \<Rightarrow> [] | Some d \<Rightarrow> [Decode_free d]) @
     (case tsetup p of None \<Rightarrow> [] | Some t \<Rightarrow> [Setup_free t]) @
     [Comment_clear, Info_clear, Table_destroy, Sync_clear, Close (fd p), Free_player]"

section \<open>Files\<close>

text \<open>The pages among the items of the sync layer, in order.\<close>

fun pages_of :: "sync_item list \<Rightarrow> ogg_page list" where
  "pages_of [] = []"
| "pages_of (Page og # is) = og # pages_of is"
| "pages_of (Junk # is) = pages_of is"

text \<open>The pages of a file, read after read.\<close>

definition file_pages :: "chunk list \<Rightarrow> ogg_page list" where
  "file_pages f = concat (map (\<lambda>c. pages_of (content c)) f)"

text \<open>The pages the player has still to see: those buffered, then those of the file.\<close>

definition upcoming :: "VideoPlayer \<Rightarrow> ogg_page list" where
  "upcoming p = pages_of (osync p) @ file_pages (input p)"

text \<open>Every beginning-of-stream page comes before every other page.\<close>

fun bos_first :: "ogg_page list \<Rightarrow> bool" where
  "bos_first [] = True"
| "bos_first (og # ps) = (if bos og then bos_first ps else list_all (\<lambda>q. \<not> bos q) ps)"

text \<open>
  The streams that begin at the head of these pages are all of another codec. The first
  loop of \<^verbatim>\<open>demux_headers\<close> looks at the pages up to the first one that begins no
  stream; for each of them, the first packet is whole in the page, and the header
  parser, in the state \<open>th\<close> it has reached by then, answers \<^verbatim>\<open>TH_ENOTFORMAT\<close> to it.
\<close>

fun foreign_streams :: "ext \<Rightarrow> th_headers \<Rightarrow> ogg_page list \<Rightarrow> bool" where
  "foreign_streams x th [] = True"
| "foreign_streams x th (og # ps) =
     (if bos og then
        (case ogg_stream_packetout
                (ogg_stream_pagein (ogg_stream_init (serialno og)) og) [] of
           (r, os', pkt) \<Rightarrow>
             r = 1 \<and> fst (th_decode_headerin x th pkt) = TH_ENOTFORMAT \<and>
             foreign_streams x (snd (th_decode_headerin x th pkt)) ps)
      else True)"

text \<open>
  On the way to a video stream: none found, the table empty, no read that will fail,
  and every stream that is still to begin is of another codec.
\<close>

definition seeking :: "ext \<Rightarrow> VideoPlayer \<Rightarrow> bool" where
  "seeking x q \<longleftrightarrow>
     \<not> have_video q \<and> stream_table q = [] \<and>
     (\<forall>k \<in> set (input q). 0 \<le> bytes k) \<and>
     foreign_streams x (tinfo q, tcomment q, tsetup q) (upcoming q)"

section \<open>The registry during negotiation\<close>

text \<open>Every entry of the table is the video stream's.\<close>

definition only_video :: "VideoPlayer \<Rightarrow> bool" where
  "only_video q \<longleftrightarrow>
     (\<forall>s b. (s, b) \<in> set (stream_table q) \<longrightarrow> have_video q \<and> vstream q = Some b)"

text \<open>
  Once the video stream is found, \<open>vstream\<close> points below the next fresh address, at a
  stream of the table or at a freed one.
\<close>

definition video_placed :: "VideoPlayer \<Rightarrow> bool" where
  "video_placed q \<longleftrightarrow>
     (have_video q \<longrightarrow>
        (\<exists>a. vstream q = Some a \<and> a < brk q \<and>
           (heap q a = None \<or> a \<in> snd ` set (stream_table q))))"

definition tracking :: "VideoPlayer \<Rightarrow> bool" where
  "tracking q \<longleftrightarrow> table_ok q \<and> only_video q \<and> video_placed q"

text \<open>
  Between \<^verbatim>\<open>demux_next_page\<close> and the rest of a pass of the first loop: the table may
  hold the stream of the current page too.
\<close>

definition just_routed :: "VideoPlayer \<Rightarrow> bool" where
  "just_routed q \<longleftrightarrow>
     table_ok q \<and> video_placed q \<and>
     (\<forall>s b. (s, b) \<in> set (stream_table q) \<longrightarrow>
        (have_video q \<and> vstream q = Some b) \<or> s = serialno (current_page q))"

text \<open>A call that hands the stream at address \<open>a\<close>, alive or freed, to the stream layer.\<close>

fun touches :: "nat \<Rightarrow> call \<Rightarrow> bool" where
  "touches a (Pagein b) = (a = b)"
| "touches a (Pagein_freed b) = (a = b)"
| "touches a (Packetout b r) = (a = b)"
| "touches a (Packetout_freed b) = (a = b)"
| "touches a c = False"

text \<open>
  The stream at address \<open>a\<close> is freed and nothing points at it: no entry of the table,
  and not \<open>vstream\<close>.
\<close>

definition forgotten :: "nat \<Rightarrow> VideoPlayer \<Rightarrow> bool" where
  "forgotten a p \<longleftrightarrow>
     heap p a = None \<and> a < brk p \<and> a \<notin> snd ` set (stream_table p) \<and> vstream p \<noteq> Some a"

text \<open>From \<open>p\<close> to \<open>p'\<close> no call touched the stream at \<open>a\<close>, and it is forgotten still.\<close>

definition undisturbed :: "nat \<Rightarrow> VideoPlayer \<Rightarrow> VideoPlayer \<Rightarrow> bool" where
  "undisturbed a p p' \<longleftrightarrow>
     (\<exists>cs. calls p' = calls p @ cs \<and> \<not> list_ex (touches a) cs) \<and> forgotten a p'"

section \<open>A sample codec and sample files\<close>

text \<open>
  A header parser in the manner of Theora's: packets that start with 128, 129 and 130
  are the three headers, in this order; once the setup header is in, any other packet
  is the first data packet (result 0); before that, any other packet is not Theora.
\<close>

definition sample_headerin :: "th_headers \<Rightarrow> ogg_packet \<Rightarrow> int \<times> th_headers" where
  "sample_headerin th pkt =
     (case th of (ti, tc, ts) \<Rightarrow>
        (case pkt of
           [] \<Rightarrow> (- 20, th)
         | k # _ \<Rightarrow>
             if k = 128 then (if ti = 0 then (3, (1, tc, ts)) else (- 20, th))
             else if k = 129 then (if ti = 1 \<and> tc = 0 then (2, (ti, 1, ts)) else (- 20, th))
             else if k = 130 then
               (if tc = 1 \<and> ts = None then (1, (ti, tc, Some 1)) else (- 20, th))
             else if ts \<noteq> None then (0, th)
             else (TH_ENOTFORMAT, th)))"

text \<open>Every file name opens, as descriptor 3, onto the given reads.\<close>

definition sample_ext :: "chunk list \<Rightarrow> ext" where
  "sample_ext f =
     \<lparr>sys_open = (\<lambda>name. (3, 0, f)),
      th_decode_headerin = sample_headerin,
      th_decode_alloc = (\<lambda>ti ts. Some 7),
      g_file_error_from_errno = (\<lambda>e. e + 1),
      g_strerror = (\<lambda>e. if e = 5 then ''Input/output error'' else ''Unknown error'')\<rparr>"

text \<open>A header parser that takes no packet for Theora.\<close>

definition deaf_ext :: "chunk list \<Rightarrow> ext" where
  "deaf_ext f = (sample_ext f)\<lparr>th_decode_headerin := (\<lambda>th pkt. (TH_ENOTFORMAT, th))\<rparr>"

definition audio_bos :: ogg_page where
  "audio_bos = \<lparr>serialno = 10, bos = True, body = [Term [1, 118]]\<rparr>"

definition video_bos :: ogg_page where
  "video_bos = \<lparr>serialno = 20, bos = True, body = [Term [128, 116]]\<rparr>"

definition audio_more :: ogg_page where
  "audio_more = \<lparr>serialno = 10, bos = False, body = [Term [3, 118]]\<rparr>"

definition video_comment :: ogg_page where
  "video_comment = \<lparr>serialno = 20, bos = False, body = [Term [129], Cont [130]]\<rparr>"

definition video_setup :: ogg_page where
  "video_setup = \<lparr>serialno = 20, bos = False, body = [Term [9], Term [0, 0]]\<rparr>"

text \<open>
  An audio stream and a video stream: both first pages, then the rest of the video
  headers (the setup header runs over two pages) and the first data packet.
\<close>

definition sample_file :: "chunk list" where
  "sample_file =
     [\<lparr>bytes = 120, errno = 0, content = [Junk, Page audio_bos, Page video_bos]\<rparr>,
      \<lparr>bytes = 90, errno = 0, content = [Page audio_more, Page video_comment]\<rparr>,
      \<lparr>bytes = 40, errno = 0, content = [Page video_setup]\<rparr>]"

text \<open>The same file cut before the page that ends the setup header.\<close>

definition truncated_file :: "chunk list" where
  "truncated_file = take 2 sample_file"

text \<open>A video stream with its three headers and no data packet after them.\<close>

definition no_data_file :: "chunk list" where
  "no_data_file =
     [\<lparr>bytes = 100, errno = 0,
       content = [Page video_bos, Page video_comment,
                  Page \<lparr>serialno = 20, bos = False, body = [Term [9]]\<rparr>]\<rparr>]"

text \<open>
  A file of one audio stream whose first page ends before its first packet does.
\<close>

definition split_first_packet :: "chunk list" where
  "split_first_packet =
     [\<lparr>bytes = 60, errno = 0,
       content = [Page \<lparr>serialno = 10, bos = True, body = [Cont [1, 118]]\<rparr>,
                  Page \<lparr>serialno = 10, bos = False, body = [Term [0]]\<rparr>]\<rparr>]"

text \<open>A descriptor whose first read fails with \<^verbatim>\<open>EIO\<close>.\<close>

definition failing_file :: "chunk list" where
  "failing_file = [\<lparr>bytes = - 1, errno = 5, content = []\<rparr>]"

text \<open>Two audio streams and nothing else.\<close>

definition audio_file :: "chunk list" where
  "audio_file =
     [\<lparr>bytes = 80, errno = 0,
       content = [Page audio_bos, Page \<lparr>serialno = 11, bos = True, body = [Term [1, 119]]\<rparr>]\<rparr>,
      \<lparr>bytes = 30, errno = 0, content = [Page audio_more]\<rparr>]"

text \<open>
  A video stream, and an audio stream whose first page comes late, among the pages of
  the video headers.
\<close>

definition late_stream_file :: "chunk list" where
  "late_stream_file =
     [\<lparr>bytes = 200, errno = 0,
       content = [Page video_bos, Page video_comment, Page audio_bos, Page video_setup]\<rparr>]"

text \<open>
  An audio stream, the video stream, a second audio stream, and then the pages that
  begin no stream.
\<close>

definition three_streams :: "chunk list" where
  "three_streams =
     [\<lparr>bytes = 150, errno = 0,
       content = [Page audio_bos, Page video_bos,
                  Page \<lparr>serialno = 11, bos = True, body = [Term [1, 119]]\<rparr>]\<rparr>,
      \<lparr>bytes = 130, errno = 0,
       content = [Page audio_more, Page video_comment, Page video_setup]\<rparr>]"

text \<open>A video stream whose first page is followed by a second page that begins it.\<close>

definition restarted_video :: "chunk list" where
  "restarted_video =
     [\<lparr>bytes = 110, errno = 0,
       content = [Page video_bos, Page \<lparr>serialno = 20, bos = True, body = [Term [7]]\<rparr>,
                  Page video_comment]\<rparr>]"

text \<open>
  A player in the second loop, with the video stream registered, half of the setup
  header buffered in it, and a page at hand.
\<close>

definition routing_player :: "ogg_page \<Rightarrow> VideoPlayer" where
  "routing_player og =
     (blank_player 3 [])\<lparr>stream_table := [(20, 0)],
        heap := [0 \<mapsto> \<lparr>os_serialno = 20, lacing = [Cont [130]]\<rparr>], brk := 1,
        current_page := og, have_video := True, vstream := Some 0\<rparr>"

section \<open>Termination of the loops\<close>

text \<open>
  Each loop is its body repeated while the body says \<open>Continue\<close>. \<open>page_loop\<close> uses up
  the descriptor, \<open>discover\<close> and \<open>collect\<close> use up the pages still to come, \<open>drain\<close>
  uses up the segments buffered in the video stream.
\<close>

lemma page_body_Continue:
  "page_body x p = (Continue, p') \<Longrightarrow> length (input p') < length (input p)"
  by (auto simp: page_body_def Let_def called_def sys_read_def
      split: prod.splits if_splits list.splits)

termination page_loop
  by (relation "measure (\<lambda>(x, p). length (input p))")
    (auto dest: page_body_Continue [OF sym])

declare page_loop.simps [simp del]

lemma page_loop_unfold:
  "page_body x p = (c, q) \<Longrightarrow> page_loop x p = (if c = Continue then page_loop x q else (c, q))"
  by (subst page_loop.simps) (simp split: ctl.splits)

lemma page_loop_last:
  assumes "page_loop x p = (c, p')" and "P p"
    and "\<And>q q'. P q \<Longrightarrow> page_body x q = (Continue, q') \<Longrightarrow> P q'"
  shows "\<exists>q. P q \<and> page_body x q = (c, p') \<and> c \<noteq> Continue"
  using assms
proof (induction x p rule: page_loop.induct)
  case (1 x p)
  obtain c1 p1 where b: "page_body x p = (c1, p1)"
    by (cases "page_body x p")
  show ?case
  proof (cases "c1 = Continue")
    case True
    with b "1.prems"(1) have l: "page_loop x p1 = (c, p')"
      by (simp add: page_loop_unfold)
    from b True have b': "page_body x p = (Continue, p1)"
      by simp
    from "1.prems"(3) [OF "1.prems"(2) b'] have "P p1" .
    from "1.IH" [OF b [symmetric] True l this "1.prems"(3)] show ?thesis .
  next
    case False
    with b "1.prems"(1) have "c = c1" "p' = p1"
      by (simp_all add: page_loop_unfold)
    with b False "1.prems"(2) show ?thesis
      by blast
  qed
qed

lemma page_body_pending:
  "page_body x p = (c, p') \<Longrightarrow> c = Continue \<or> c = Break \<Longrightarrow> pending p' < pending p"
  by (auto simp: page_body_def Let_def called_def sys_read_def pending_def ogg_sync_pageout_def
      ogg_sync_wrote_def
      split: prod.splits if_splits list.splits sync_item.splits)

lemma page_body_shape:
  "page_body x p = (c, p') \<Longrightarrow>
     c = Continue \<or> c = Break \<or> (c = Return TRUE \<and> eof p') \<or> (\<exists>e. c = Return (FALSE e))"
  by (auto simp: page_body_def Let_def called_def split: prod.splits if_splits)

lemma page_loop_result:
  assumes "page_loop x p = (c, p')"
  shows "(c = Break \<and> pending p' < pending p) \<or> (c = Return TRUE \<and> eof p')
     \<or> (\<exists>e. c = Return (FALSE e))"
proof -
  have "\<exists>q. pending q \<le> pending p \<and> page_body x q = (c, p') \<and> c \<noteq> Continue"
  proof (rule page_loop_last [OF assms])
    show "pending p \<le> pending p"
      by simp
  next
    fix q q'
    assume "pending q \<le> pending p" and "page_body x q = (Continue, q')"
    then show "pending q' \<le> pending p"
      using page_body_pending [of x q Continue q'] by simp
  qed
  then obtain q where q: "pending q \<le> pending p" "page_body x q = (c, p')" "c \<noteq> Continue"
    by blast
  from page_body_shape [OF q(2)] page_body_pending [OF q(2)] q(1,3) show ?thesis
    by auto
qed

lemma dispatch_page_frame:
  "dispatch_page p = (r, p') \<Longrightarrow>
     pending p' = pending p \<and> eof p' = eof p \<and> current_page p' = current_page p"
  by (auto simp: dispatch_page_def Let_def called_def pending_def
      split: option.splits if_splits)

lemma demux_next_page_pending:
  assumes "demux_next_page x p = (TRUE, p')"
  shows "eof p' \<or> pending p' < pending p"
proof -
  obtain c q where l: "page_loop x p = (c, q)"
    by (cases "page_loop x p")
  show ?thesis
  proof (cases "c = Break")
    case True
    with assms l have "dispatch_page q = (TRUE, p')"
      by (simp add: demux_next_page_def)
    from dispatch_page_frame [OF this] page_loop_result [OF l] True show ?thesis
      by auto
  next
    case False
    with page_loop_result [OF l] assms l show ?thesis
      by (auto simp: demux_next_page_def)
  qed
qed

lemma scan_page_frame:
  "scan_page x p = (c, p') \<Longrightarrow>
     pending p' = pending p \<and> eof p' = eof p \<and> current_page p' = current_page p"
  by (auto simp: scan_page_def Let_def called_def pending_def g_hash_table_remove_def
      split: option.splits if_splits prod.splits)

lemma discover_body_Continue:
  assumes "discover_body x p = (Continue, p')"
  shows "pending p' < pending p"
proof -
  obtain r p1 where n: "demux_next_page x p = (r, p1)"
    by (cases "demux_next_page x p")
  with assms have r: "r = TRUE" and e: "\<not> eof p1" and s: "scan_page x p1 = (Continue, p')"
    by (auto simp: discover_body_def split: outcome.splits if_splits)
  from demux_next_page_pending n r e have "pending p1 < pending p"
    by auto
  with scan_page_frame [OF s] show ?thesis
    by simp
qed

termination discover
  by (relation "measure (\<lambda>(x, p). pending p)") (auto dest: discover_body_Continue [OF sym])

declare discover.simps [simp del]

lemma discover_unfold:
  "discover_body x p = (c, q) \<Longrightarrow> discover x p = (if c = Continue then discover x q else (c, q))"
  by (subst discover.simps) (simp split: ctl.splits)

lemma discover_last:
  assumes "discover x p = (c, p')" and "P p"
    and "\<And>q q'. P q \<Longrightarrow> discover_body x q = (Continue, q') \<Longrightarrow> P q'"
  shows "\<exists>q. P q \<and> discover_body x q = (c, p') \<and> c \<noteq> Continue"
  using assms
proof (induction x p rule: discover.induct)
  case (1 x p)
  obtain c1 p1 where b: "discover_body x p = (c1, p1)"
    by (cases "discover_body x p")
  show ?case
  proof (cases "c1 = Continue")
    case True
    with b "1.prems"(1) have l: "discover x p1 = (c, p')"
      by (simp add: discover_unfold)
    from b True have b': "discover_body x p = (Continue, p1)"
      by simp
    from "1.prems"(3) [OF "1.prems"(2) b'] have "P p1" .
    from "1.IH" [OF b [symmetric] True l this "1.prems"(3)] show ?thesis .
  next
    case False
    with b "1.prems"(1) have "c = c1" "p' = p1"
      by (simp_all add: discover_unfold)
    with b False "1.prems"(2) show ?thesis
      by blast
  qed
qed

lemma take_packet_shorter:
  "take_packet q = Some (d, r) \<Longrightarrow> length r < length q"
  by (induction q arbitrary: d r rule: take_packet.induct) (auto split: option.splits)

lemma packetout_shorter:
  "ogg_stream_packetout os op = (1, os', d) \<Longrightarrow> length (lacing os') < length (lacing os)"
  by (auto simp: ogg_stream_packetout_def split: list.splits lace.splits option.splits
      dest: take_packet_shorter)

lemma feed_packet_frame:
  "feed_packet x pkt p = (c, p') \<Longrightarrow>
     pending p' = pending p \<and> eof p' = eof p \<and> heap p' = heap p \<and> vstream p' = vstream p"
  by (auto simp: feed_packet_def Let_def called_def pending_def split: prod.splits if_splits)

lemma drain_body_Continue:
  "drain_body x p = (Continue, p') \<Longrightarrow> buffered p' < buffered p"
  by (auto simp: drain_body_def Let_def called_def buffered_def
      split: option.splits prod.splits if_splits
      dest!: feed_packet_frame packetout_shorter)

termination drain
  by (relation "measure (\<lambda>(x, p). buffered p)") (auto dest: drain_body_Continue [OF sym])

declare drain.simps [simp del]

lemma drain_unfold:
  "drain_body x p = (c, q) \<Longrightarrow> drain x p = (if c = Continue then drain x q else (c, q))"
  by (subst drain.simps) (simp split: ctl.splits)

lemma drain_last:
  assumes "drain x p = (c, p')" and "P p"
    and "\<And>q q'. P q \<Longrightarrow> drain_body x q = (Continue, q') \<Longrightarrow> P q'"
  shows "\<exists>q. P q \<and> drain_body x q = (c, p') \<and> c \<noteq> Continue"
  using assms
proof (induction x p rule: drain.induct)
  case (1 x p)
  obtain c1 p1 where b: "drain_body x p = (c1, p1)"
    by (cases "drain_body x p")
  show ?case
  proof (cases "c1 = Continue")
    case True
    with b "1.prems"(1) have l: "drain x p1 = (c, p')"
      by (simp add: drain_unfold)
    from b True have b': "drain_body x p = (Continue, p1)"
      by simp
    from "1.prems"(3) [OF "1.prems"(2) b'] have "P p1" .
    from "1.IH" [OF b [symmetric] True l this "1.prems"(3)] show ?thesis .
  next
    case False
    with b "1.prems"(1) have "c = c1" "p' = p1"
      by (simp_all add: drain_unfold)
    with b False "1.prems"(2) show ?thesis
      by blast
  qed
qed

lemma drain_body_frame:
  "drain_body x p = (c, p') \<Longrightarrow> pending p' = pending p \<and> eof p' = eof p"
  by (auto simp: drain_body_def Let_def called_def pending_def
      split: option.splits prod.splits if_splits dest!: feed_packet_frame)

lemma drain_frame:
  assumes "drain x p = (c, p')"
  shows "pending p' = pending p \<and> eof p' = eof p"
proof -
  have "\<exists>q. (pending q = pending p \<and> eof q = eof p) \<and> drain_body x q = (c, p')
      \<and> c \<noteq> Continue"
    by (rule drain_last [OF assms]) (auto dest: drain_body_frame)
  then show ?thesis
    by (auto dest: drain_body_frame)
qed

lemma collect_body_Continue:
  assumes "collect_body x p = (Continue, p')"
  shows "(if eof p' then 0 else Suc (pending p')) < (if eof p then 0 else Suc (pending p))"
proof -
  obtain c p1 where d: "drain x p = (c, p1)"
    by (cases "drain x p")
  obtain r p2 where n: "demux_next_page x p1 = (r, p2)"
    by (cases "demux_next_page x p1")
  from assms d n have e: "\<not> eof p" and r: "r = TRUE" and p2: "p2 = p'"
    by (auto simp: collect_body_def split: ctl.splits outcome.splits if_splits)
  from demux_next_page_pending n r p2 have "eof p' \<or> pending p' < pending p1"
    by auto
  with drain_frame [OF d] e show ?thesis
    by auto
qed

termination collect
  by (relation "measure (\<lambda>(x, p). if eof p then 0 else Suc (pending p))")
    (auto dest: collect_body_Continue [OF sym])

declare collect.simps [simp del]

lemma collect_unfold:
  "collect_body x p = (c, q) \<Longrightarrow> collect x p = (if c = Continue then collect x q else (c, q))"
  by (subst collect.simps) (simp split: ctl.splits)

lemma collect_last:
  assumes "collect x p = (c, p')" and "P p"
    and "\<And>q q'. P q \<Longrightarrow> collect_body x q = (Continue, q') \<Longrightarrow> P q'"
  shows "\<exists>q. P q \<and> collect_body x q = (c, p') \<and> c \<noteq> Continue"
  using assms
proof (induction x p rule: collect.induct)
  case (1 x p)
  obtain c1 p1 where b: "collect_body x p = (c1, p1)"
    by (cases "collect_body x p")
  show ?case
  proof (cases "c1 = Continue")
    case True
    with b "1.prems"(1) have l: "collect x p1 = (c, p')"
      by (simp add: collect_unfold)
    from b True have b': "collect_body x p = (Continue, p1)"
      by simp
    from "1.prems"(3) [OF "1.prems"(2) b'] have "P p1" .
    from "1.IH" [OF b [symmetric] True l this "1.prems"(3)] show ?thesis .
  next
    case False
    with b "1.prems"(1) have "c = c1" "p' = p1"
      by (simp_all add: collect_unfold)
    with b False "1.prems"(2) show ?thesis
      by blast
  qed
qed

section \<open>The page synchronizer\<close>

lemma since_append: "calls p' = calls p @ cs \<Longrightarrow> since p p' = cs"
  by (simp add: since_def)

lemma page_body_cases:
  assumes "page_body x q = (c, q')"
  defines "r \<equiv> fst (ogg_sync_pageout (osync q) (current_page q))"
    and "k \<equiv> fst (sys_read (input q))"
  shows "kept q q' \<and>
    (if r = 1
     then c = Break \<and> calls q' = calls q @ [Pageout 1] \<and> eof q' = eof q
     else calls q' = calls q @ [Pageout r, Read (bytes k) (errno k)]
       \<and> current_page q' = current_page q
       \<and> (if bytes k = 0 then c = Return TRUE \<and> eof q'
          else if bytes k < 0 then
            c = Return (FALSE (G_FILE_ERROR (g_file_error_from_errno x (errno k))
                  (''Failed to read video: '' @ g_strerror x (errno k)))) \<and> eof q' = eof q
          else c = Continue \<and> eof q' = eof q))"
  using assms(1) unfolding r_def k_def
  by (auto simp: page_body_def Let_def called_def ogg_sync_pageout_def kept_def
      split: prod.splits if_splits list.splits sync_item.splits)

lemma retried_refl: "retried p p []"
  by (simp add: retried_def kept_def)

lemma retried_step:
  assumes "retried p q cs" and "page_body x q = (Continue, q')"
  shows "\<exists>cs'. retried p q' cs'"
proof -
  let ?r = "fst (ogg_sync_pageout (osync q) (current_page q))"
  let ?k = "fst (sys_read (input q))"
  from page_body_cases [OF assms(2)] assms(1)
  have "retried p q' (cs @ [Pageout ?r, Read (bytes ?k) (errno ?k)])"
    by (auto simp: retried_def kept_def split: if_splits)
  then show ?thesis ..
qed

lemma page_loop_cases:
  assumes "page_loop x p = (c, p')"
  shows "\<exists>q cs. retried p q cs \<and> page_body x q = (c, p') \<and> c \<noteq> Continue"
proof -
  have "\<exists>q. (\<exists>cs. retried p q cs) \<and> page_body x q = (c, p') \<and> c \<noteq> Continue"
  proof (rule page_loop_last [OF assms])
    show "\<exists>cs. retried p p cs"
      using retried_refl ..
  next
    fix q q'
    assume "\<exists>cs. retried p q cs" and "page_body x q = (Continue, q')"
    then show "\<exists>cs. retried p q' cs"
      using retried_step by blast
  qed
  then show ?thesis
    by blast
qed

lemma dispatch_page_calls:
  assumes "dispatch_page q = (r, p')"
  shows "\<exists>ds. calls p' = calls q @ ds \<and> (\<forall>n e. Read n e \<notin> set ds) \<and> (\<forall>k. Pageout k \<notin> set ds)
     \<and> eof p' = eof q \<and> current_page p' = current_page q"
  using assms
  by (auto simp: dispatch_page_def Let_def called_def split: option.splits if_splits)

lemma retry_Read: "list_all retry cs \<Longrightarrow> Read n e \<in> set cs \<Longrightarrow> 0 < n"
  by (induction cs) auto

lemma retry_Pageout: "list_all retry cs \<Longrightarrow> Pageout 1 \<notin> set cs"
  by (induction cs) auto

section \<open>The end-of-input flag\<close>

lemma page_loop_eof:
  assumes "page_loop x p = (c, p')"
  shows "eof p \<longrightarrow> eof p'"
proof -
  from page_loop_cases [OF assms] obtain q cs where
    q: "retried p q cs" and b: "page_body x q = (c, p')"
    by blast
  from page_body_cases [OF b] q show ?thesis
    by (auto simp: retried_def split: if_splits)
qed

lemma demux_next_page_eof:
  assumes "demux_next_page x p = (r, p')"
  shows "eof p \<longrightarrow> eof p'"
proof -
  obtain c p1 where l: "page_loop x p = (c, p1)"
    by (cases "page_loop x p")
  show ?thesis
  proof (cases "\<exists>v. c = Return v")
    case True
    with l assms page_loop_eof [OF l] show ?thesis
      by (auto simp: demux_next_page_def)
  next
    case False
    with l assms have "dispatch_page p1 = (r, p')"
      by (cases c) (auto simp: demux_next_page_def)
    from dispatch_page_calls [OF this] page_loop_eof [OF l] show ?thesis
      by auto
  qed
qed

lemma discover_body_eof:
  assumes "discover_body x p = (c, p')"
  shows "eof p \<longrightarrow> eof p'"
proof -
  obtain r p1 where n: "demux_next_page x p = (r, p1)"
    by (cases "demux_next_page x p")
  from assms n have "p' = p1 \<or> (\<exists>c. scan_page x p1 = (c, p'))"
    by (auto simp: discover_body_def split: outcome.splits if_splits)
  with demux_next_page_eof [OF n] show ?thesis
    by (auto dest: scan_page_frame)
qed

lemma discover_eof:
  assumes "discover x p = (c, p')"
  shows "eof p \<longrightarrow> eof p'"
proof -
  have "\<exists>q. (eof p \<longrightarrow> eof q) \<and> discover_body x q = (c, p') \<and> c \<noteq> Continue"
    by (rule discover_last [OF assms]) (auto dest: discover_body_eof)
  then show ?thesis
    by (auto dest: discover_body_eof)
qed

lemma collect_body_eof:
  assumes "collect_body x p = (c, p')"
  shows "eof p \<longrightarrow> eof p'"
proof (cases "eof p")
  case True
  with assms show ?thesis
    by (simp add: collect_body_def)
next
  case False
  then show ?thesis
    by simp
qed

lemma collect_eof:
  assumes "collect x p = (c, p')"
  shows "eof p \<longrightarrow> eof p'"
proof -
  have "\<exists>q. (eof p \<longrightarrow> eof q) \<and> collect_body x q = (c, p') \<and> c \<noteq> Continue"
    by (rule collect_last [OF assms]) (auto dest: collect_body_eof)
  then show ?thesis
    by (auto dest: collect_body_eof)
qed

lemma demux_headers_eof:
  assumes "demux_headers x p = (r, p')"
  shows "eof p \<longrightarrow> eof p'"
proof -
  obtain c p1 where d: "discover x p = (c, p1)"
    by (cases "discover x p")
  obtain c2 p2 where k: "collect x p1 = (c2, p2)"
    by (cases "collect x p1")
  from assms d k have "p' = p1 \<or> p' = p2"
    by (auto simp: demux_headers_def split: ctl.splits if_splits)
  with discover_eof [OF d] collect_eof [OF k] show ?thesis
    by auto
qed

lemma video_player_destroy_eof: "eof (video_player_destroy p) = eof p"
  by (simp add: video_player_destroy_def Let_def called_def split: option.splits)

section \<open>The registry\<close>

lemma table_ok_lookup:
  assumes "table_ok p" and "g_hash_table_lookup (stream_table p) s = Some a"
  shows "a < brk p \<and> (\<exists>os. heap p a = Some os \<and> os_serialno os = s)"
proof -
  from assms(2) have "(s, a) \<in> set (stream_table p)"
    by (simp add: g_hash_table_lookup_def map_of_SomeD)
  with assms(1) show ?thesis
    by (auto simp: table_ok_def split: option.splits)
qed

lemma table_ok_kept: "kept p q \<Longrightarrow> table_ok p \<Longrightarrow> table_ok q"
  by (simp add: kept_def table_ok_def)

lemma pagein_serial: "os_serialno (ogg_stream_pagein os og) = os_serialno os"
  by (simp add: ogg_stream_pagein_def)

lemma packetout_serial:
  "ogg_stream_packetout os op = (r, os', d) \<Longrightarrow> os_serialno os' = os_serialno os"
  by (auto simp: ogg_stream_packetout_def split: list.splits lace.splits option.splits)

text \<open>Writing a stream of the same serial number back to its address.\<close>

lemma table_ok_store:
  assumes "table_ok p" and "heap p a = Some os" and "os_serialno os' = os_serialno os"
    and "stream_table q = stream_table p" and "brk q = brk p"
    and "heap q = (heap p)(a \<mapsto> os')"
  shows "table_ok q"
  using assms by (auto simp: table_ok_def split: option.splits)

lemma update_fresh: "k \<notin> fst ` set al \<Longrightarrow> AList.update k v al = al @ [(k, v)]"
  by (induction al) auto

lemma table_ok_insert:
  assumes "table_ok p" and "g_hash_table_lookup (stream_table p) s = None"
    and "stream_table q = AList.update s (brk p) (stream_table p)" and "brk q = Suc (brk p)"
    and "heap q = (heap p)(brk p \<mapsto> os)" and "os_serialno os = s"
  shows "table_ok q"
proof -
  from assms(1) have d: "distinct (map fst (stream_table p))"
    by (simp add: table_ok_def)
  from assms(2) have n: "s \<notin> fst ` set (stream_table p)"
    by (simp add: g_hash_table_lookup_def map_of_eq_None_iff)
  from n have "AList.update s (brk p) (stream_table p) = stream_table p @ [(s, brk p)]"
    by (rule update_fresh)
  with assms(1,3-6) n show ?thesis
    by (fastforce simp: table_ok_def split: option.splits)
qed

lemma table_ok_remove: "table_ok p \<Longrightarrow> table_ok (g_hash_table_remove s p)"
proof -
  assume ok: "table_ok p"
  show ?thesis
  proof (cases "g_hash_table_lookup (stream_table p) s")
    case None
    with ok show ?thesis
      by (simp add: g_hash_table_remove_def called_def table_ok_def)
  next
    case (Some a)
    from table_ok_lookup [OF ok Some] obtain os where
      os: "heap p a = Some os" "os_serialno os = s"
      by blast
    have "\<And>s' a'. (s', a') \<in> set (AList.delete s (stream_table p)) \<Longrightarrow>
        (s', a') \<in> set (stream_table p) \<and> s' \<noteq> s"
      by (auto simp: AList.delete_eq)
    with ok os Some show ?thesis
      by (fastforce simp: g_hash_table_remove_def called_def table_ok_def distinct_delete
          split: option.splits)
  qed
qed

lemma dispatch_page_ok:
  assumes "table_ok p" and "dispatch_page p = (r, p')"
  shows "r = TRUE \<and> table_ok p'"
proof (cases "g_hash_table_lookup (stream_table p) (serialno (current_page p))")
  case None
  show ?thesis
  proof (cases "bos (current_page p)")
    case True
    with None assms(2) have r: "r = TRUE"
      and q: "stream_table p' = AList.update (serialno (current_page p)) (brk p) (stream_table p)"
        "brk p' = Suc (brk p)"
        "heap p' = (heap p)(brk p \<mapsto>
           ogg_stream_pagein (ogg_stream_init (serialno (current_page p))) (current_page p))"
      by (auto simp: dispatch_page_def Let_def called_def)
    from table_ok_insert [OF assms(1) None q] r show ?thesis
      by (simp add: pagein_serial ogg_stream_init_def)
  next
    case False
    with None assms show ?thesis
      by (simp add: dispatch_page_def)
  qed
next
  case (Some a)
  from table_ok_lookup [OF assms(1) Some] obtain os where os: "heap p a = Some os"
    by blast
  with Some assms(2) have r: "r = TRUE"
    and q: "stream_table p' = stream_table p" "brk p' = brk p"
      "heap p' = (heap p)(a \<mapsto> ogg_stream_pagein os (current_page p))"
    by (auto simp: dispatch_page_def Let_def called_def)
  from table_ok_store [OF assms(1) os pagein_serial q] r show ?thesis
    by simp
qed

lemma page_loop_kept:
  assumes "page_loop x p = (c, p')"
  shows "kept p p'"
proof -
  from page_loop_cases [OF assms] obtain q cs where
    q: "retried p q cs" and b: "page_body x q = (c, p')"
    by blast
  from page_body_cases [OF b] q show ?thesis
    by (simp add: retried_def kept_def)
qed

lemma demux_next_page_ok:
  assumes "table_ok p" and "demux_next_page x p = (r, p')"
  shows "r \<noteq> Undefined \<and> table_ok p'"
proof -
  obtain c p1 where l: "page_loop x p = (c, p1)"
    by (cases "page_loop x p")
  from page_loop_kept [OF l] assms(1) have ok: "table_ok p1"
    by (rule table_ok_kept)
  show ?thesis
  proof (cases "c = Break")
    case True
    with l assms(2) have "dispatch_page p1 = (r, p')"
      by (simp add: demux_next_page_def)
    from dispatch_page_ok [OF ok this] show ?thesis
      by simp
  next
    case False
    from page_loop_result [OF l] False l assms(2) ok show ?thesis
      by (auto simp: demux_next_page_def)
  qed
qed

lemma routed:
  assumes "table_ok p1" and "dispatch_page p1 = (r, p)" and "bos (current_page p1)"
  shows "\<exists>a os. g_hash_table_lookup (stream_table p) (serialno (current_page p)) = Some a
     \<and> heap p a = Some os"
proof -
  from dispatch_page_ok [OF assms(1,2)] have ok: "table_ok p"
    by simp
  from assms(2,3)
  have "\<exists>a. g_hash_table_lookup (stream_table p) (serialno (current_page p)) = Some a"
    by (auto simp: dispatch_page_def Let_def called_def g_hash_table_lookup_def update_conv'
        split: option.splits)
  with table_ok_lookup [OF ok] show ?thesis
    by blast
qed

lemma demux_next_page_routed:
  assumes "table_ok p0" and "demux_next_page x p0 = (TRUE, p)" and "\<not> eof p"
    and "bos (current_page p)"
  shows "\<exists>a os. g_hash_table_lookup (stream_table p) (serialno (current_page p)) = Some a
     \<and> heap p a = Some os"
proof -
  obtain c p1 where l: "page_loop x p0 = (c, p1)"
    by (cases "page_loop x p0")
  from page_loop_result [OF l] assms(2,3) l have br: "c = Break"
    by (auto simp: demux_next_page_def)
  with l assms(2) have d: "dispatch_page p1 = (TRUE, p)"
    by (simp add: demux_next_page_def)
  from page_loop_kept [OF l] assms(1) have ok: "table_ok p1"
    by (rule table_ok_kept)
  from dispatch_page_calls [OF d] assms(4) have "bos (current_page p1)"
    by auto
  from routed [OF ok d this] show ?thesis .
qed

lemma discover_body_Return:
  assumes "discover_body x p = (Return r, p')"
  shows "discover x p = (Return r, p') \<and> demux_headers x p = (r, p')"
  using assms by (simp add: discover_unfold demux_headers_def)

section \<open>The decode context\<close>

lemma without_refl: "without E p p"
  by (simp add: without_def)

lemma without_trans: "without E p q \<Longrightarrow> without E q r \<Longrightarrow> without E p r"
  by (auto simp: without_def)

lemma without_mono: "without E p q \<Longrightarrow> D \<subseteq> E \<Longrightarrow> without D p q"
  by (auto simp: without_def)

lemma without_allocated: "without E p q \<Longrightarrow> allocated x E q r \<Longrightarrow> allocated x E p r"
proof -
  assume w: "without E p q" and a: "allocated x E q r"
  from w obtain cs where cs: "calls q = calls p @ cs" "set cs \<inter> E = {}"
    by (auto simp: without_def)
  from a obtain ds where ds: "calls r = calls q @ ds @ [Headerin 0, Decode_alloc]"
    "set ds \<inter> E = {}"
    by (auto simp: allocated_def)
  from cs ds have "calls r = calls p @ (cs @ ds) @ [Headerin 0, Decode_alloc]"
    "set (cs @ ds) \<inter> E = {}"
    by auto
  with a show ?thesis
    unfolding allocated_def by blast
qed

lemma allocated_mono: "allocated x E p q \<Longrightarrow> D \<subseteq> E \<Longrightarrow> allocated x D p q"
  unfolding allocated_def by blast

lemma without_since:
  assumes "without E p p'"
  shows "calls p' = calls p @ since p p' \<and> set (since p p') \<inter> E = {}
     \<and> vdecoder p' = vdecoder p"
  using assms by (auto simp: without_def since_def)

lemma allocated_since:
  assumes "allocated x E p p'"
  shows "calls p' = calls p @ since p p'
     \<and> (\<exists>pre. since p p' = pre @ [Headerin 0, Decode_alloc] \<and> set pre \<inter> E = {})
     \<and> vdecoder p' = th_decode_alloc x (tinfo p') (tsetup p')"
  using assms by (auto simp: allocated_def since_def)

lemma page_loop_without:
  assumes "page_loop x p = (c, p')"
  shows "without {Headerin 0, Decode_alloc} p p'"
proof -
  from page_loop_cases [OF assms] obtain q cs where
    q: "retried p q cs" and b: "page_body x q = (c, p')"
    by blast
  from q have "set cs \<inter> {Headerin 0, Decode_alloc} = {}"
    by (auto simp: retried_def list_all_iff)
  with q have "without {Headerin 0, Decode_alloc} p q"
    by (auto simp: retried_def kept_def without_def)
  moreover from page_body_cases [OF b] have "without {Headerin 0, Decode_alloc} q p'"
    by (auto simp: kept_def without_def split: if_splits)
  ultimately show ?thesis
    by (rule without_trans)
qed

lemma dispatch_page_without:
  assumes "dispatch_page p = (r, p')"
  shows "without {Headerin 0, Decode_alloc} p p'"
  using assms
  by (auto simp: dispatch_page_def Let_def called_def without_def split: option.splits if_splits)

lemma demux_next_page_without:
  assumes "demux_next_page x p = (r, p')"
  shows "without {Headerin 0, Decode_alloc} p p'"
proof -
  obtain c p1 where l: "page_loop x p = (c, p1)"
    by (cases "page_loop x p")
  from assms l have "p' = p1 \<or> dispatch_page p1 = (r, p')"
    by (auto simp: demux_next_page_def split: ctl.splits)
  with page_loop_without [OF l] show ?thesis
    by (auto dest: dispatch_page_without without_trans)
qed

lemma remove_without: "without {Decode_alloc} p (g_hash_table_remove s p)"
  by (simp add: g_hash_table_remove_def called_def without_def split: option.splits)

lemma scan_page_without:
  assumes "scan_page x p = (c, p')"
  shows "without {Decode_alloc} p p' \<and> c \<noteq> Return TRUE"
  using assms
  by (auto simp: scan_page_def Let_def called_def without_def g_hash_table_remove_def
      split: option.splits if_splits prod.splits)

lemma discover_body_without:
  assumes "discover_body x p = (c, p')"
  shows "without {Decode_alloc} p p' \<and> c \<noteq> Return TRUE"
proof -
  obtain r p1 where n: "demux_next_page x p = (r, p1)"
    by (cases "demux_next_page x p")
  from demux_next_page_without [OF n] have w: "without {Decode_alloc} p p1"
    by (rule without_mono) simp
  from assms n have "(p' = p1 \<and> c \<noteq> Return TRUE) \<or> scan_page x p1 = (c, p')"
    by (auto simp: discover_body_def split: outcome.splits if_splits)
  with w show ?thesis
    by (auto dest: scan_page_without without_trans)
qed

lemma discover_without:
  assumes "discover x p = (c, p')"
  shows "without {Decode_alloc} p p' \<and> c \<noteq> Return TRUE"
proof -
  have "\<exists>q. without {Decode_alloc} p q \<and> discover_body x q = (c, p') \<and> c \<noteq> Continue"
    by (rule discover_last [OF assms]) (auto intro: without_refl dest: discover_body_without without_trans)
  then show ?thesis
    by (auto dest: discover_body_without without_trans)
qed

lemma feed_packet_alloc:
  assumes "feed_packet x pkt p = (c, p')"
  shows "if c = Return TRUE
     then calls p' = calls p @ [Headerin 0, Decode_alloc]
       \<and> vdecoder p' = th_decode_alloc x (tinfo p') (tsetup p')
     else without {Headerin 0, Decode_alloc} p p'"
  using assms
  by (auto simp: feed_packet_def Let_def called_def without_def split: prod.splits if_splits)

lemma drain_body_alloc:
  assumes "drain_body x p = (c, p')"
  shows "if c = Return TRUE then allocated x {Headerin 0, Decode_alloc} p p'
     else without {Headerin 0, Decode_alloc} p p'"
proof (cases "\<exists>a os. vstream p = Some a \<and> heap p a = Some os
    \<and> fst (ogg_stream_packetout os []) = 1")
  case True
  then obtain a os os' pkt where v: "vstream p = Some a" "heap p a = Some os"
    and po: "ogg_stream_packetout os [] = (1, os', pkt)"
    by (metis prod.collapse)
  let ?p1 = "called (Packetout a 1) (p\<lparr>heap := (heap p)(a \<mapsto> os')\<rparr>)"
  from v po assms have f: "feed_packet x pkt ?p1 = (c, p')"
    by (simp add: drain_body_def Let_def)
  have w: "without {Headerin 0, Decode_alloc} p ?p1"
    by (simp add: without_def called_def)
  show ?thesis
  proof (cases "c = Return TRUE")
    case True
    with feed_packet_alloc [OF f] have "allocated x {Headerin 0, Decode_alloc} ?p1 p'"
      by (simp add: allocated_def)
    with w True show ?thesis
      by (auto dest: without_allocated)
  next
    case False
    with feed_packet_alloc [OF f] w show ?thesis
      by (auto dest: without_trans)
  qed
next
  case False
  with assms show ?thesis
    by (auto simp: drain_body_def Let_def called_def without_def
        split: option.splits prod.splits if_splits)
qed

lemma drain_alloc:
  assumes "drain x p = (c, p')"
  shows "if c = Return TRUE then allocated x {Headerin 0, Decode_alloc} p p'
     else without {Headerin 0, Decode_alloc} p p'"
proof -
  have "\<exists>q. without {Headerin 0, Decode_alloc} p q \<and> drain_body x q = (c, p') \<and> c \<noteq> Continue"
  proof (rule drain_last [OF assms])
    show "without {Headerin 0, Decode_alloc} p p"
      by (rule without_refl)
  next
    fix q q'
    assume "without {Headerin 0, Decode_alloc} p q" and "drain_body x q = (Continue, q')"
    with drain_body_alloc [of x q Continue q'] show "without {Headerin 0, Decode_alloc} p q'"
      by (auto dest: without_trans)
  qed
  then obtain q where q: "without {Headerin 0, Decode_alloc} p q" "drain_body x q = (c, p')"
    by blast
  from drain_body_alloc [OF q(2)] q(1) show ?thesis
    by (auto dest: without_trans without_allocated)
qed

lemma collect_body_alloc:
  assumes "collect_body x p = (c, p')"
  shows "if c = Return TRUE then allocated x {Headerin 0, Decode_alloc} p p'
     else without {Headerin 0, Decode_alloc} p p'"
proof (cases "eof p")
  case True
  with assms show ?thesis
    by (simp add: collect_body_def without_refl)
next
  case False
  obtain c1 p1 where d: "drain x p = (c1, p1)"
    by (cases "drain x p")
  show ?thesis
  proof (cases "\<exists>r. c1 = Return r")
    case True
    with False d assms have "c = c1" "p' = p1"
      by (auto simp: collect_body_def)
    with drain_alloc [OF d] show ?thesis
      by simp
  next
    case nr: False
    obtain r p2 where n: "demux_next_page x p1 = (r, p2)"
      by (cases "demux_next_page x p1")
    from nr False d n assms have c: "c \<noteq> Return TRUE" and p2: "p' = p2"
      by (cases c1; auto simp: collect_body_def split: outcome.splits)+
    from nr drain_alloc [OF d] have "without {Headerin 0, Decode_alloc} p p1"
      by auto
    with demux_next_page_without [OF n] c p2 show ?thesis
      by (auto dest: without_trans)
  qed
qed

lemma collect_alloc:
  assumes "collect x p = (c, p')"
  shows "if c = Return TRUE then allocated x {Headerin 0, Decode_alloc} p p'
     else without {Headerin 0, Decode_alloc} p p'"
proof -
  have "\<exists>q. without {Headerin 0, Decode_alloc} p q \<and> collect_body x q = (c, p') \<and> c \<noteq> Continue"
  proof (rule collect_last [OF assms])
    show "without {Headerin 0, Decode_alloc} p p"
      by (rule without_refl)
  next
    fix q q'
    assume "without {Headerin 0, Decode_alloc} p q" and "collect_body x q = (Continue, q')"
    with collect_body_alloc [of x q Continue q'] show "without {Headerin 0, Decode_alloc} p q'"
      by (auto dest: without_trans)
  qed
  then obtain q where q: "without {Headerin 0, Decode_alloc} p q" "collect_body x q = (c, p')"
    by blast
  from collect_body_alloc [OF q(2)] q(1) show ?thesis
    by (auto dest: without_trans without_allocated)
qed

lemma demux_headers_alloc:
  assumes "demux_headers x p = (r, p')"
  shows "if r = TRUE then allocated x {Decode_alloc} p p' else without {Decode_alloc} p p'"
proof -
  obtain c p1 where d: "discover x p = (c, p1)"
    by (cases "discover x p")
  note w = discover_without [OF d]
  show ?thesis
  proof (cases "(\<exists>v. c = Return v) \<or> \<not> have_video p1")
    case True
    with assms d w have "r \<noteq> TRUE" "p' = p1"
      by (auto simp: demux_headers_def split: ctl.splits)
    with w show ?thesis
      by simp
  next
    case False
    obtain c2 p2 where k: "collect x p1 = (c2, p2)"
      by (cases "collect x p1")
    from False assms d k have s: "p' = p2" "r = TRUE \<longleftrightarrow> c2 = Return TRUE"
      by (cases c; cases c2; auto simp: demux_headers_def)+
    from collect_alloc [OF k]
    have "if c2 = Return TRUE then allocated x {Decode_alloc} p1 p2
        else without {Decode_alloc} p1 p2"
      by (auto elim: allocated_mono without_mono)
    with w s show ?thesis
      by (auto dest: without_trans without_allocated)
  qed
qed

section \<open>Meeting the end of input\<close>

lemma demux_next_page_sets_eof:
  assumes "demux_next_page x p = (r, p')" and "\<not> eof p" and "eof p'"
  shows "r = TRUE"
proof -
  obtain c p1 where l: "page_loop x p = (c, p1)"
    by (cases "page_loop x p")
  from page_loop_cases [OF l] obtain q cs where
    q: "retried p q cs" and b: "page_body x q = (c, p1)" and c: "c \<noteq> Continue"
    by blast
  from q assms(2) have nq: "\<not> eof q"
    by (simp add: retried_def)
  show ?thesis
  proof (cases "c = Break")
    case True
    with l assms(1) have d: "dispatch_page p1 = (r, p')"
      by (simp add: demux_next_page_def)
    from page_body_cases [OF b] True nq have "\<not> eof p1"
      by (auto split: if_splits)
    with dispatch_page_calls [OF d] assms(3) show ?thesis
      by auto
  next
    case False
    with page_body_cases [OF b] c obtain v where v: "c = Return v"
      by (auto split: if_splits)
    with l assms(1) have "r = v" "p' = p1"
      by (auto simp: demux_next_page_def)
    with page_body_cases [OF b] v nq assms(3) show ?thesis
      by (auto split: if_splits)
  qed
qed

lemma discover_body_eof_Break:
  assumes "discover_body x q = (c, q')" and "\<not> eof q" and "eof q'"
  shows "c = Break"
proof -
  obtain r p1 where n: "demux_next_page x q = (r, p1)"
    by (cases "demux_next_page x q")
  show ?thesis
  proof (cases "r = TRUE \<and> \<not> eof p1 \<and> bos (current_page p1)")
    case True
    with assms(1) n have "scan_page x p1 = (c, q')"
      by (simp add: discover_body_def)
    from scan_page_frame [OF this] True assms(3) show ?thesis
      by simp
  next
    case False
    with assms(1) n have q': "q' = p1"
      by (auto simp: discover_body_def split: outcome.splits if_splits)
    from demux_next_page_sets_eof [OF n assms(2)] q' assms(3) have "r = TRUE"
      by simp
    with assms(1,3) n q' show ?thesis
      by (simp add: discover_body_def)
  qed
qed

lemma discover_eof_Break:
  assumes "discover x p = (c, p')" and "\<not> eof p" and "eof p'"
  shows "c = Break"
proof -
  have "\<exists>q. \<not> eof q \<and> discover_body x q = (c, p') \<and> c \<noteq> Continue"
  proof (rule discover_last [OF assms(1)])
    show "\<not> eof p"
      by (rule assms(2))
  next
    fix q q'
    assume "\<not> eof q" and "discover_body x q = (Continue, q')"
    with discover_body_eof_Break [of x q Continue q'] show "\<not> eof q'"
      by auto
  qed
  then obtain q where q: "\<not> eof q" "discover_body x q = (c, p')"
    by blast
  show ?thesis
    by (rule discover_body_eof_Break [OF q(2) q(1) assms(3)])
qed

lemma collect_body_unfold:
  assumes "\<not> eof q" and "drain x q = (c1, p1)" and "demux_next_page x p1 = (r, p2)"
  shows "collect_body x q =
     (case c1 of Return v \<Rightarrow> (Return v, p1)
      | _ \<Rightarrow> if r = TRUE then (Continue, p2) else (Return r, p2))"
  using assms by (simp add: collect_body_def split: ctl.splits outcome.splits)

lemma collect_body_eof_Break:
  assumes "collect_body x q = (c, q')" and "c \<noteq> Continue" and "eof q'"
  shows "c = Break"
proof (cases "eof q")
  case True
  with assms show ?thesis
    by (simp add: collect_body_def)
next
  case False
  obtain c1 p1 where d: "drain x q = (c1, p1)"
    by (cases "drain x q")
  from drain_frame [OF d] False have e1: "\<not> eof p1"
    by simp
  obtain r p2 where n: "demux_next_page x p1 = (r, p2)"
    by (cases "demux_next_page x p1")
  have "q' = p1 \<or> (r \<noteq> TRUE \<and> q' = p2)"
  proof (cases "\<exists>v. c1 = Return v")
    case True
    with assms(1) False d show ?thesis
      by (auto simp: collect_body_def)
  next
    case nr: False
    with collect_body_unfold [OF False d n]
    have "collect_body x q = (if r = TRUE then (Continue, p2) else (Return r, p2))"
      by (cases c1) simp_all
    with assms(1,2) show ?thesis
      by (auto split: if_splits)
  qed
  with e1 demux_next_page_sets_eof [OF n e1] assms(3) show ?thesis
    by auto
qed

lemma collect_eof_Break:
  assumes "collect x p = (c, p')" and "eof p'"
  shows "c = Break"
proof -
  have "\<exists>q. True \<and> collect_body x q = (c, p') \<and> c \<noteq> Continue"
    by (rule collect_last [OF assms(1)]) simp_all
  then obtain q where q: "collect_body x q = (c, p')" "c \<noteq> Continue"
    by blast
  show ?thesis
    by (rule collect_body_eof_Break [OF q assms(2)])
qed

section \<open>The pages still to come\<close>

lemma pages_of_append: "pages_of (xs @ ys) = pages_of xs @ pages_of ys"
  by (induction xs rule: pages_of.induct) simp_all

lemma page_body_upcoming:
  assumes "page_body x q = (c, q')"
  shows "(c = Break \<longrightarrow> upcoming q = current_page q' # upcoming q') \<and>
    (c = Continue \<longrightarrow> upcoming q' = upcoming q) \<and>
    set (input q') \<subseteq> set (input q) \<and>
    ((\<forall>k \<in> set (input q). 0 \<le> bytes k) \<longrightarrow> (\<forall>e. c \<noteq> Return (FALSE e)))"
  using assms
  by (auto simp: page_body_def Let_def called_def ogg_sync_pageout_def sys_read_def
      ogg_sync_wrote_def upcoming_def file_pages_def pages_of_append
      split: prod.splits if_splits list.splits sync_item.splits)

lemma page_loop_upcoming:
  assumes "page_loop x p = (c, p')"
  shows "(c = Break \<longrightarrow> upcoming p = current_page p' # upcoming p') \<and>
    set (input p') \<subseteq> set (input p) \<and>
    ((\<forall>k \<in> set (input p). 0 \<le> bytes k) \<longrightarrow> (\<forall>e. c \<noteq> Return (FALSE e)))"
proof -
  have "\<exists>q. (upcoming q = upcoming p \<and> set (input q) \<subseteq> set (input p))
      \<and> page_body x q = (c, p') \<and> c \<noteq> Continue"
  proof (rule page_loop_last [OF assms])
    show "upcoming p = upcoming p \<and> set (input p) \<subseteq> set (input p)"
      by simp
  next
    fix q q'
    assume "upcoming q = upcoming p \<and> set (input q) \<subseteq> set (input p)"
      and "page_body x q = (Continue, q')"
    with page_body_upcoming [of x q Continue q']
    show "upcoming q' = upcoming p \<and> set (input q') \<subseteq> set (input p)"
      by auto
  qed
  then obtain q where q: "upcoming q = upcoming p" "set (input q) \<subseteq> set (input p)"
    and b: "page_body x q = (c, p')"
    by blast
  from page_body_upcoming [OF b] q show ?thesis
    by auto
qed

lemma dispatch_page_upcoming:
  "dispatch_page p = (r, p') \<Longrightarrow> upcoming p' = upcoming p \<and> input p' = input p"
  by (auto simp: dispatch_page_def Let_def called_def upcoming_def split: option.splits if_splits)

text \<open>
  What \<^verbatim>\<open>demux_next_page\<close> comes to: the end of input, a failed read, or the next of
  the pages to come, routed.
\<close>

lemma demux_next_page_upcoming:
  assumes "demux_next_page x p = (r, p')"
  shows "set (input p') \<subseteq> set (input p) \<and>
    ((\<forall>k \<in> set (input p). 0 \<le> bytes k) \<longrightarrow> (\<forall>e. r \<noteq> FALSE e)) \<and>
    ((r = TRUE \<and> eof p' \<and> kept p p') \<or> (\<exists>e. r = FALSE e) \<or>
     (\<exists>p1. kept p p1 \<and> eof p1 = eof p \<and> dispatch_page p1 = (r, p')
        \<and> upcoming p = current_page p1 # upcoming p'))"
proof -
  obtain c p1 where l: "page_loop x p = (c, p1)"
    by (cases "page_loop x p")
  note u = page_loop_upcoming [OF l]
  note k = page_loop_kept [OF l]
  show ?thesis
  proof (cases "c = Break")
    case True
    with l assms have d: "dispatch_page p1 = (r, p')"
      by (simp add: demux_next_page_def)
    from page_loop_cases [OF l] obtain q cs where
      q: "retried p q cs" and b: "page_body x q = (c, p1)"
      by blast
    from page_body_cases [OF b] q True have e: "eof p1 = eof p"
      by (auto simp: retried_def split: if_splits)
    from dispatch_page_ok [of p1 r p'] d have nf: "table_ok p1 \<Longrightarrow> r = TRUE"
      by simp
    have "\<forall>e. r \<noteq> FALSE e"
      using d by (auto simp: dispatch_page_def Let_def split: option.splits if_splits)
    with u True dispatch_page_upcoming [OF d] k e d show ?thesis
      by auto
  next
    case False
    with page_loop_result [OF l] l assms have r: "c = Return r" "p' = p1"
      by (auto simp: demux_next_page_def)
    with page_loop_result [OF l] u k show ?thesis
      by auto
  qed
qed

section \<open>A file without a video stream\<close>

lemma scan_page_foreign:
  assumes "\<not> have_video p" and "stream_table p = [(serialno (current_page p), a)]"
    and "heap p a =
      Some (ogg_stream_pagein (ogg_stream_init (serialno (current_page p))) (current_page p))"
    and "bos (current_page p)"
    and "foreign_streams x (tinfo p, tcomment p, tsetup p) (current_page p # ps)"
    and "scan_page x p = (c, p')"
  shows "c = Continue \<and> \<not> have_video p' \<and> stream_table p' = [] \<and>
    input p' = input p \<and> upcoming p' = upcoming p \<and>
    foreign_streams x (tinfo p', tcomment p', tsetup p') ps"
proof -
  let ?os = "ogg_stream_pagein (ogg_stream_init (serialno (current_page p))) (current_page p)"
  let ?th = "(tinfo p, tcomment p, tsetup p)"
  obtain r os' pkt where po: "ogg_stream_packetout ?os [] = (r, os', pkt)"
    by (cases "ogg_stream_packetout ?os []")
  with assms(4,5) have r: "r = 1" and nf: "fst (th_decode_headerin x ?th pkt) = TH_ENOTFORMAT"
    and rest: "foreign_streams x (snd (th_decode_headerin x ?th pkt)) ps"
    by simp_all
  obtain ti tc ts where hi: "th_decode_headerin x ?th pkt = (TH_ENOTFORMAT, ti, tc, ts)"
    using nf by (cases "th_decode_headerin x ?th pkt") auto
  from assms(1,2,3,6) po r hi rest show ?thesis
    by (auto simp: scan_page_def Let_def called_def g_hash_table_lookup_def
        g_hash_table_remove_def upcoming_def)
qed

lemma dispatch_page_empty:
  assumes "stream_table p = []" and "dispatch_page p = (r, p')"
  shows "r = TRUE \<and> have_video p' = have_video p \<and>
    tinfo p' = tinfo p \<and> tcomment p' = tcomment p \<and> tsetup p' = tsetup p \<and>
    (if bos (current_page p)
     then stream_table p' = [(serialno (current_page p), brk p)] \<and>
       heap p' (brk p) =
         Some (ogg_stream_pagein (ogg_stream_init (serialno (current_page p))) (current_page p))
     else stream_table p' = [])"
  using assms
  by (auto simp: dispatch_page_def Let_def called_def g_hash_table_lookup_def)

lemma discover_body_seeking:
  assumes "seeking x q" and "discover_body x q = (c, q')"
  shows "(c = Continue \<and> seeking x q') \<or> (c = Break \<and> \<not> have_video q')"
proof -
  obtain r p1 where n: "demux_next_page x q = (r, p1)"
    by (cases "demux_next_page x q")
  from assms(1) have s: "\<not> have_video q" "stream_table q = []"
    "\<forall>k \<in> set (input q). 0 \<le> bytes k"
    "foreign_streams x (tinfo q, tcomment q, tsetup q) (upcoming q)"
    by (simp_all add: seeking_def)
  from demux_next_page_upcoming [OF n] s(3)
  have i: "set (input p1) \<subseteq> set (input q)"
    and cases: "(r = TRUE \<and> eof p1 \<and> kept q p1) \<or>
      (\<exists>p0. kept q p0 \<and> eof p0 = eof q \<and> dispatch_page p0 = (r, p1)
         \<and> upcoming q = current_page p0 # upcoming p1)"
    by auto
  from cases show ?thesis
  proof
    assume "r = TRUE \<and> eof p1 \<and> kept q p1"
    with assms(2) n s(1) show ?thesis
      by (simp add: discover_body_def kept_def)
  next
    assume "\<exists>p0. kept q p0 \<and> eof p0 = eof q \<and> dispatch_page p0 = (r, p1)
         \<and> upcoming q = current_page p0 # upcoming p1"
    then obtain p0 where k: "kept q p0" and d: "dispatch_page p0 = (r, p1)"
      and u: "upcoming q = current_page p0 # upcoming p1"
      by blast
    from k s have e0: "stream_table p0 = []" and v0: "\<not> have_video p0"
      by (simp_all add: kept_def)
    note de = dispatch_page_empty [OF e0 d]
    from dispatch_page_calls [OF d] have cp: "current_page p1 = current_page p0"
      by blast
    from de v0 have r: "r = TRUE" and v1: "\<not> have_video p1"
      by simp_all
    from de k have th: "tinfo p1 = tinfo q" "tcomment p1 = tcomment q" "tsetup p1 = tsetup q"
      by (simp_all add: kept_def)
    show ?thesis
    proof (cases "eof p1 \<or> \<not> bos (current_page p1)")
      case True
      with assms(2) n r v1 show ?thesis
        by (simp add: discover_body_def)
    next
      case False
      with assms(2) n r have sc: "scan_page x p1 = (c, q')"
        by (simp add: discover_body_def)
      from False cp de
      have t1: "stream_table p1 = [(serialno (current_page p1), brk p0)]"
        and h1: "heap p1 (brk p0) = Some (ogg_stream_pagein
            (ogg_stream_init (serialno (current_page p1))) (current_page p1))"
        and b1: "bos (current_page p1)"
        by simp_all
      from u s(4) cp th
      have f1: "foreign_streams x (tinfo p1, tcomment p1, tsetup p1)
          (current_page p1 # upcoming p1)"
        by simp
      from scan_page_foreign [OF v1 t1 h1 b1 f1 sc] i s(3) show ?thesis
        by (auto simp: seeking_def)
    qed
  qed
qed

lemma discover_seeking:
  assumes "seeking x p" and "discover x p = (c, p')"
  shows "c = Break \<and> \<not> have_video p'"
proof -
  have "\<exists>q. seeking x q \<and> discover_body x q = (c, p') \<and> c \<noteq> Continue"
  proof (rule discover_last [OF assms(2)])
    show "seeking x p"
      by (rule assms(1))
  next
    fix q q'
    assume "seeking x q" and "discover_body x q = (Continue, q')"
    with discover_body_seeking [of x q Continue q'] show "seeking x q'"
      by simp
  qed
  then obtain q where "seeking x q" "discover_body x q = (c, p')" "c \<noteq> Continue"
    by blast
  with discover_body_seeking [of x q c p'] show ?thesis
    by simp
qed

section \<open>The table holds the video stream only\<close>

lemma table_ok_entry:
  assumes "table_ok p" and "(s, a) \<in> set (stream_table p)"
  shows "a < brk p \<and> (\<exists>os. heap p a = Some os \<and> os_serialno os = s)
     \<and> g_hash_table_lookup (stream_table p) s = Some a"
  using assms by (auto simp: table_ok_def g_hash_table_lookup_def split: option.splits)

lemma lookup_entry:
  "g_hash_table_lookup t s = Some a \<Longrightarrow> (s, a) \<in> set t"
  by (simp add: g_hash_table_lookup_def map_of_SomeD)

lemma lookup_none: "g_hash_table_lookup t s = None \<Longrightarrow> (s, a) \<notin> set t"
  by (auto simp: g_hash_table_lookup_def map_of_eq_None_iff image_iff)

lemma tracking_kept: "kept p q \<Longrightarrow> tracking p \<Longrightarrow> tracking q"
  by (simp add: kept_def tracking_def table_ok_def only_video_def video_placed_def)

lemma tracking_routed: "tracking p \<Longrightarrow> just_routed p"
  by (simp add: tracking_def just_routed_def only_video_def)

lemma dispatch_page_tracking:
  assumes "tracking p" and "dispatch_page p = (r, p')"
  shows "just_routed p' \<and> (\<not> bos (current_page p) \<longrightarrow> tracking p')"
proof -
  let ?s = "serialno (current_page p)"
  from assms(1) have ok: "table_ok p" and ov: "only_video p" and vp: "video_placed p"
    by (simp_all add: tracking_def)
  from dispatch_page_ok [OF ok assms(2)] have ok': "table_ok p'"
    by simp
  show ?thesis
  proof (cases "g_hash_table_lookup (stream_table p) ?s")
    case None
    show ?thesis
    proof (cases "bos (current_page p)")
      case True
      from None have "?s \<notin> fst ` set (stream_table p)"
        by (simp add: g_hash_table_lookup_def map_of_eq_None_iff)
      then have u: "AList.update ?s (brk p) (stream_table p) = stream_table p @ [(?s, brk p)]"
        by (rule update_fresh)
      from None True assms(2) u
      have p': "stream_table p' = stream_table p @ [(?s, brk p)]" "brk p' = Suc (brk p)"
        "have_video p' = have_video p" "vstream p' = vstream p"
        "current_page p' = current_page p"
        "\<And>a. a \<noteq> brk p \<Longrightarrow> heap p' a = heap p a"
        by (auto simp: dispatch_page_def Let_def called_def)
      from vp p' have "video_placed p'"
        by (auto simp: video_placed_def)
      with ok' ov p' True show ?thesis
        by (auto simp: just_routed_def only_video_def)
    next
      case False
      with None assms show ?thesis
        by (simp add: dispatch_page_def tracking_routed)
    qed
  next
    case (Some b)
    from table_ok_lookup [OF ok Some] obtain os where os: "heap p b = Some os"
      by blast
    from Some os assms(2)
    have p': "stream_table p' = stream_table p" "brk p' = brk p"
      "have_video p' = have_video p" "vstream p' = vstream p"
      "current_page p' = current_page p"
      "\<And>a. a \<noteq> b \<Longrightarrow> heap p' a = heap p a"
      by (auto simp: dispatch_page_def Let_def called_def)
    from lookup_entry [OF Some] have b: "b \<in> snd ` set (stream_table p)"
      by force
    have "video_placed p'"
    proof (cases "have_video p")
      case False
      with p' show ?thesis
        by (simp add: video_placed_def)
    next
      case True
      with vp obtain a where a: "vstream p = Some a" "a < brk p"
        "heap p a = None \<or> a \<in> snd ` set (stream_table p)"
        by (auto simp: video_placed_def)
      with b p'(6) [of a] have "heap p' a = None \<or> a \<in> snd ` set (stream_table p)"
        by (cases "a = b") auto
      with a p' show ?thesis
        by (simp add: video_placed_def)
    qed
    with ok' ov p' show ?thesis
      by (auto simp: tracking_def just_routed_def only_video_def)
  qed
qed

lemma remove_tracking:
  assumes "just_routed p" and "s = serialno (current_page p)"
  shows "tracking (g_hash_table_remove s p)"
proof -
  from assms(1) have ok: "table_ok p" and vp: "video_placed p"
    and en: "\<And>s' b. (s', b) \<in> set (stream_table p) \<Longrightarrow>
        (have_video p \<and> vstream p = Some b) \<or> s' = s"
    by (auto simp: just_routed_def assms(2))
  note ok' = table_ok_remove [OF ok, of s]
  show ?thesis
  proof (cases "g_hash_table_lookup (stream_table p) s")
    case None
    then have "\<And>b. (s, b) \<notin> set (stream_table p)"
      by (rule lookup_none)
    with en have "only_video p"
      by (auto simp: only_video_def)
    with None ok vp show ?thesis
      by (simp add: g_hash_table_remove_def called_def tracking_def table_ok_def
          only_video_def video_placed_def)
  next
    case (Some b)
    let ?q = "g_hash_table_remove s p"
    from Some
    have q: "stream_table ?q = AList.delete s (stream_table p)" "brk ?q = brk p"
      "have_video ?q = have_video p" "vstream ?q = vstream p"
      "heap ?q = (heap p)(b := None)"
      by (simp_all add: g_hash_table_remove_def called_def)
    have d: "\<And>s' a. (s', a) \<in> set (AList.delete s (stream_table p)) \<longleftrightarrow>
        (s', a) \<in> set (stream_table p) \<and> s' \<noteq> s"
      by (auto simp: AList.delete_eq)
    from en d q have ov: "only_video ?q"
      by (auto simp: only_video_def)
    have "video_placed ?q"
    proof (cases "have_video p")
      case False
      with q show ?thesis
        by (simp add: video_placed_def)
    next
      case True
      with vp obtain a where a: "vstream p = Some a" "a < brk p"
        "heap p a = None \<or> a \<in> snd ` set (stream_table p)"
        by (auto simp: video_placed_def)
      have "heap ?q a = None \<or> a \<in> snd ` set (stream_table ?q)"
      proof (cases "a = b \<or> heap p a = None")
        case True
        with q show ?thesis
          by auto
      next
        case False
        with a obtain s' where s': "(s', a) \<in> set (stream_table p)"
          by auto
        from table_ok_entry [OF ok s'] Some False have "s' \<noteq> s"
          by auto
        with s' d q have "(s', a) \<in> set (stream_table ?q)"
          by simp
        then show ?thesis
          by force
      qed
      with a q show ?thesis
        by (simp add: video_placed_def)
    qed
    with ok' ov show ?thesis
      by (simp add: tracking_def)
  qed
qed

lemma scan_page_tracking:
  assumes "just_routed p" and "scan_page x p = (Continue, p')"
  shows "tracking p'"
proof (cases "have_video p")
  case True
  with assms(2) have "p' = g_hash_table_remove (serialno (current_page p)) p"
    by (simp add: scan_page_def)
  with remove_tracking [OF assms(1) refl] show ?thesis
    by simp
next
  case False
  let ?s = "serialno (current_page p)"
  from assms(1) have ok: "table_ok p"
    and en: "\<And>s' b. (s', b) \<in> set (stream_table p) \<Longrightarrow> s' = ?s"
    using False by (auto simp: just_routed_def)
  from False assms(2) obtain a os where
    l: "g_hash_table_lookup (stream_table p) ?s = Some a" and h: "heap p a = Some os"
    by (auto simp: scan_page_def Let_def split: option.splits)
  obtain r os' pkt where po: "ogg_stream_packetout os [] = (r, os', pkt)"
    by (cases "ogg_stream_packetout os []")
  let ?p1 = "called (Packetout a r) (p\<lparr>heap := (heap p)(a \<mapsto> os')\<rparr>)"
  obtain hs ti tc ts where
    hi: "th_decode_headerin x (tinfo ?p1, tcomment ?p1, tsetup ?p1) pkt = (hs, ti, tc, ts)"
    by (cases "th_decode_headerin x (tinfo ?p1, tcomment ?p1, tsetup ?p1) pkt")
  let ?p2 = "called (Headerin hs) (?p1\<lparr>tinfo := ti, tcomment := tc, tsetup := ts\<rparr>)"
  from False l h po hi assms(2) have r: "r = 1"
    and p': "p' = (if hs = TH_ENOTFORMAT then g_hash_table_remove ?s ?p2
        else ?p2\<lparr>have_video := True, vstream := Some a\<rparr>)"
    by (auto simp: scan_page_def Let_def split: if_splits)
  have ok2: "table_ok ?p2"
    by (rule table_ok_store [OF ok h packetout_serial [OF po]]) (simp_all add: called_def)
  have f2: "stream_table ?p2 = stream_table p" "have_video ?p2 = have_video p"
    "current_page ?p2 = current_page p" "brk ?p2 = brk p"
    by (simp_all add: called_def)
  show ?thesis
  proof (cases "hs = TH_ENOTFORMAT")
    case True
    from ok2 f2 False en have "just_routed ?p2"
      by (auto simp: just_routed_def video_placed_def)
    from remove_tracking [OF this] f2 True p' show ?thesis
      by simp
  next
    case nf: False
    let ?p3 = "?p2\<lparr>have_video := True, vstream := Some a\<rparr>"
    from ok2 have ok3: "table_ok ?p3"
      by (simp add: table_ok_def)
    have "\<And>s' b. (s', b) \<in> set (stream_table p) \<Longrightarrow> b = a"
    proof -
      fix s' b
      assume e: "(s', b) \<in> set (stream_table p)"
      with en have "s' = ?s"
        by simp
      with table_ok_entry [OF ok e] l show "b = a"
        by simp
    qed
    then have ov: "only_video ?p3"
      by (simp add: only_video_def called_def)
    from table_ok_lookup [OF ok l] lookup_entry [OF l] have "video_placed ?p3"
      by (force simp: video_placed_def called_def)
    with ok3 ov nf p' show ?thesis
      by (simp add: tracking_def)
  qed
qed

lemma scan_page_upcoming:
  "scan_page x p = (c, p') \<Longrightarrow> upcoming p' = upcoming p"
  by (auto simp: scan_page_def Let_def called_def upcoming_def g_hash_table_remove_def
      split: option.splits if_splits prod.splits)

lemma bos_first_rest:
  "bos_first (og # ps) \<Longrightarrow>
     (bos og \<longrightarrow> bos_first ps) \<and> (\<not> bos og \<longrightarrow> list_all (\<lambda>g. \<not> bos g) ps)"
  by simp

lemma discover_body_tracking:
  assumes "tracking q" and "bos_first (upcoming q)" and "discover_body x q = (c, q')"
    and "\<not> eof q"
  shows "(c = Continue \<longrightarrow> tracking q' \<and> bos_first (upcoming q') \<and> \<not> eof q') \<and>
    (c = Break \<longrightarrow> tracking q' \<and> (eof q' \<or> list_all (\<lambda>g. \<not> bos g) (upcoming q')))"
proof -
  obtain r p1 where n: "demux_next_page x q = (r, p1)"
    by (cases "demux_next_page x q")
  from demux_next_page_upcoming [OF n]
  have "(r = TRUE \<and> eof p1 \<and> kept q p1) \<or> (\<exists>e. r = FALSE e) \<or>
      (\<exists>p0. kept q p0 \<and> eof p0 = eof q \<and> dispatch_page p0 = (r, p1)
         \<and> upcoming q = current_page p0 # upcoming p1)"
    by simp
  then show ?thesis
  proof (elim disjE)
    assume a: "r = TRUE \<and> eof p1 \<and> kept q p1"
    with assms(3) n have "c = Break" "q' = p1"
      by (simp_all add: discover_body_def)
    with a tracking_kept [OF _ assms(1)] show ?thesis
      by simp
  next
    assume "\<exists>e. r = FALSE e"
    with assms(3) n show ?thesis
      by (auto simp: discover_body_def)
  next
    assume "\<exists>p0. kept q p0 \<and> eof p0 = eof q \<and> dispatch_page p0 = (r, p1)
         \<and> upcoming q = current_page p0 # upcoming p1"
    then obtain p0 where k: "kept q p0" and d: "dispatch_page p0 = (r, p1)"
      and u: "upcoming q = current_page p0 # upcoming p1" and e0: "eof p0 = eof q"
      by blast
    from tracking_kept [OF k assms(1)] have t0: "tracking p0" .
    note dt = dispatch_page_tracking [OF t0 d]
    from t0 have "table_ok p0"
      by (simp add: tracking_def)
    from dispatch_page_ok [OF this d] have r: "r = TRUE"
      by simp
    from dispatch_page_calls [OF d] e0 assms(4)
    have cp: "current_page p1 = current_page p0" and e1: "\<not> eof p1"
      by auto
    from assms(2) u have bf: "bos_first (current_page p0 # upcoming p1)"
      by simp
    note br = bos_first_rest [OF bf]
    show ?thesis
    proof (cases "eof p1 \<or> \<not> bos (current_page p1)")
      case True
      with assms(3) n r have "c = Break" "q' = p1"
        by (simp_all add: discover_body_def)
      with True dt br cp e1 show ?thesis
        by auto
    next
      case False
      with assms(3) n r have sc: "scan_page x p1 = (c, q')"
        by (simp add: discover_body_def)
      from sc have "c \<noteq> Break"
        by (auto simp: scan_page_def Let_def split: option.splits if_splits prod.splits)
      with scan_page_tracking [of p1 x q'] sc dt scan_page_upcoming [OF sc] br False cp
        scan_page_frame [OF sc]
      show ?thesis
        by auto
    qed
  qed
qed

lemma discover_tracking:
  assumes "tracking p" and "bos_first (upcoming p)" and "discover x p = (Break, p')"
    and "\<not> eof p"
  shows "tracking p' \<and> (eof p' \<or> list_all (\<lambda>g. \<not> bos g) (upcoming p'))"
proof -
  have "\<exists>q. (tracking q \<and> bos_first (upcoming q) \<and> \<not> eof q)
      \<and> discover_body x q = (Break, p') \<and> Break \<noteq> Continue"
  proof (rule discover_last [OF assms(3)])
    show "tracking p \<and> bos_first (upcoming p) \<and> \<not> eof p"
      using assms(1,2,4) by simp
  next
    fix q q'
    assume "tracking q \<and> bos_first (upcoming q) \<and> \<not> eof q"
      and "discover_body x q = (Continue, q')"
    with discover_body_tracking [of q x Continue q']
    show "tracking q' \<and> bos_first (upcoming q') \<and> \<not> eof q'"
      by simp
  qed
  then obtain q where "tracking q" "bos_first (upcoming q)" "discover_body x q = (Break, p')"
    "\<not> eof q"
    by blast
  with discover_body_tracking [of q x Break p'] show ?thesis
    by simp
qed

lemma feed_packet_registry:
  "feed_packet x pkt p = (c, p') \<Longrightarrow>
     stream_table p' = stream_table p \<and> heap p' = heap p \<and> brk p' = brk p \<and>
     have_video p' = have_video p \<and> vstream p' = vstream p \<and> upcoming p' = upcoming p"
  by (auto simp: feed_packet_def Let_def called_def upcoming_def split: prod.splits if_splits)

lemma tracking_fields:
  assumes "tracking p" and "stream_table q = stream_table p" and "heap q = heap p"
    and "brk q = brk p" and "have_video q = have_video p" and "vstream q = vstream p"
  shows "tracking q"
  using assms by (simp add: tracking_def table_ok_def only_video_def video_placed_def)

lemma drain_body_tracking:
  assumes "tracking q" and "drain_body x q = (c, q')"
  shows "tracking q' \<and> upcoming q' = upcoming q \<and> have_video q' = have_video q \<and>
    (c = Return TRUE \<longrightarrow> (\<exists>a os. vstream q' = Some a \<and> heap q' a = Some os))"
proof (cases "\<exists>a os. vstream q = Some a \<and> heap q a = Some os")
  case False
  with assms(2) have "c = Return Undefined"
    and "q' = q \<or> (\<exists>a. q' = called (Packetout_freed a) q)"
    by (auto simp: drain_body_def split: option.splits)
  with tracking_fields [OF assms(1), of q'] show ?thesis
    by (auto simp: called_def upcoming_def)
next
  case True
  then obtain a os where v: "vstream q = Some a" and h: "heap q a = Some os"
    by blast
  obtain r os' pkt where po: "ogg_stream_packetout os [] = (r, os', pkt)"
    by (cases "ogg_stream_packetout os []")
  let ?p1 = "called (Packetout a r) (q\<lparr>heap := (heap q)(a \<mapsto> os')\<rparr>)"
  from assms(1) have ok: "table_ok q" and ov: "only_video q" and vp: "video_placed q"
    by (simp_all add: tracking_def)
  have ok1: "table_ok ?p1"
    by (rule table_ok_store [OF ok h packetout_serial [OF po]]) (simp_all add: called_def)
  from ov have ov1: "only_video ?p1"
    by (simp add: only_video_def called_def)
  from vp v h have vp1: "video_placed ?p1"
    by (auto simp: video_placed_def called_def)
  from ok1 ov1 vp1 have t1: "tracking ?p1"
    by (simp add: tracking_def)
  have f1: "upcoming ?p1 = upcoming q" "have_video ?p1 = have_video q"
    "vstream ?p1 = Some a" "heap ?p1 a = Some os'"
    using v by (simp_all add: called_def upcoming_def)
  show ?thesis
  proof (cases "r = 1")
    case True
    with v h po assms(2) have f: "feed_packet x pkt ?p1 = (c, q')"
      by (simp add: drain_body_def Let_def)
    note fr = feed_packet_registry [OF f]
    from tracking_fields [OF t1, of q'] fr have "tracking q'"
      by simp
    with fr f1 show ?thesis
      by simp
  next
    case False
    with v h po assms(2) have "c = Break" "q' = ?p1"
      by (simp_all add: drain_body_def Let_def)
    with t1 f1 show ?thesis
      by simp
  qed
qed

lemma drain_tracking:
  assumes "tracking p" and "drain x p = (c, p')"
  shows "tracking p' \<and> upcoming p' = upcoming p \<and> have_video p' = have_video p \<and>
    (c = Return TRUE \<longrightarrow> (\<exists>a os. vstream p' = Some a \<and> heap p' a = Some os))"
proof -
  have "\<exists>q. (tracking q \<and> upcoming q = upcoming p \<and> have_video q = have_video p)
      \<and> drain_body x q = (c, p') \<and> c \<noteq> Continue"
  proof (rule drain_last [OF assms(2)])
    show "tracking p \<and> upcoming p = upcoming p \<and> have_video p = have_video p"
      using assms(1) by simp
  next
    fix q q'
    assume "tracking q \<and> upcoming q = upcoming p \<and> have_video q = have_video p"
      and "drain_body x q = (Continue, q')"
    with drain_body_tracking [of q x Continue q']
    show "tracking q' \<and> upcoming q' = upcoming p \<and> have_video q' = have_video p"
      by simp
  qed
  then obtain q where "tracking q" "upcoming q = upcoming p" "have_video q = have_video p"
    "drain_body x q = (c, p')"
    by blast
  with drain_body_tracking [of q x c p'] show ?thesis
    by simp
qed

lemma dispatch_page_have_video:
  "dispatch_page p = (r, p') \<Longrightarrow> have_video p' = have_video p"
  by (auto simp: dispatch_page_def Let_def called_def split: option.splits if_splits)

text \<open>In the second loop: the video stream is found, and no stream is still to begin.\<close>

lemma collect_body_tracking:
  assumes "tracking q" and "have_video q"
    and "eof q \<or> list_all (\<lambda>g. \<not> bos g) (upcoming q)"
    and "collect_body x q = (c, q')"
  shows "(c = Continue \<longrightarrow> tracking q' \<and> have_video q' \<and>
       (eof q' \<or> list_all (\<lambda>g. \<not> bos g) (upcoming q'))) \<and>
    (c = Return TRUE \<longrightarrow> tracking q' \<and> have_video q' \<and>
       (\<exists>a os. vstream q' = Some a \<and> heap q' a = Some os))"
proof (cases "eof q")
  case True
  with assms(4) show ?thesis
    by (simp add: collect_body_def)
next
  case False
  with assms(3) have nb: "list_all (\<lambda>g. \<not> bos g) (upcoming q)"
    by simp
  obtain c1 p1 where d: "drain x q = (c1, p1)"
    by (cases "drain x q")
  note dt = drain_tracking [OF assms(1) d]
  obtain r p2 where n: "demux_next_page x p1 = (r, p2)"
    by (cases "demux_next_page x p1")
  note cu = collect_body_unfold [OF False d n]
  show ?thesis
  proof (cases "\<exists>v. c1 = Return v")
    case True
    with cu assms(4) have "c = c1" "q' = p1"
      by auto
    with dt assms(2) True show ?thesis
      by auto
  next
    case nr: False
    with cu have "collect_body x q = (if r = TRUE then (Continue, p2) else (Return r, p2))"
      by (cases c1) simp_all
    with assms(4) have c: "c = (if r = TRUE then Continue else Return r)" and q': "q' = p2"
      by (auto split: if_splits)
    from demux_next_page_upcoming [OF n]
    have "(r = TRUE \<and> eof p2 \<and> kept p1 p2) \<or> (\<exists>e. r = FALSE e) \<or>
        (\<exists>p0. kept p1 p0 \<and> eof p0 = eof p1 \<and> dispatch_page p0 = (r, p2)
           \<and> upcoming p1 = current_page p0 # upcoming p2)"
      by simp
    then show ?thesis
    proof (elim disjE)
      assume a: "r = TRUE \<and> eof p2 \<and> kept p1 p2"
      with tracking_kept [of p1 p2] dt assms(2) c q' show ?thesis
        by (simp add: kept_def)
    next
      assume "\<exists>e. r = FALSE e"
      with c show ?thesis
        by auto
    next
      assume "\<exists>p0. kept p1 p0 \<and> eof p0 = eof p1 \<and> dispatch_page p0 = (r, p2)
           \<and> upcoming p1 = current_page p0 # upcoming p2"
      then obtain p0 where k: "kept p1 p0" and dp: "dispatch_page p0 = (r, p2)"
        and u: "upcoming p1 = current_page p0 # upcoming p2"
        by blast
      from tracking_kept [OF k] dt have t0: "tracking p0"
        by simp
      from u dt nb have b: "\<not> bos (current_page p0)" "list_all (\<lambda>g. \<not> bos g) (upcoming p2)"
        by simp_all
      from dispatch_page_tracking [OF t0 dp] b have t2: "tracking p2"
        by simp
      from t0 have "table_ok p0"
        by (simp add: tracking_def)
      from dispatch_page_ok [OF this dp] have r: "r = TRUE"
        by simp
      from dispatch_page_have_video [OF dp] k dt assms(2) have "have_video p2"
        by (simp add: kept_def)
      with t2 b r c q' show ?thesis
        by simp
    qed
  qed
qed

lemma collect_tracking:
  assumes "tracking p" and "have_video p"
    and "eof p \<or> list_all (\<lambda>g. \<not> bos g) (upcoming p)"
    and "collect x p = (Return TRUE, p')"
  shows "tracking p' \<and> have_video p' \<and> (\<exists>a os. vstream p' = Some a \<and> heap p' a = Some os)"
proof -
  have "\<exists>q. (tracking q \<and> have_video q \<and> (eof q \<or> list_all (\<lambda>g. \<not> bos g) (upcoming q)))
      \<and> collect_body x q = (Return TRUE, p') \<and> Return TRUE \<noteq> Continue"
  proof (rule collect_last [OF assms(4)])
    show "tracking p \<and> have_video p \<and> (eof p \<or> list_all (\<lambda>g. \<not> bos g) (upcoming p))"
      using assms(1-3) by simp
  next
    fix q q'
    assume "tracking q \<and> have_video q \<and> (eof q \<or> list_all (\<lambda>g. \<not> bos g) (upcoming q))"
      and "collect_body x q = (Continue, q')"
    with collect_body_tracking [of q x Continue q']
    show "tracking q' \<and> have_video q' \<and> (eof q' \<or> list_all (\<lambda>g. \<not> bos g) (upcoming q'))"
      by simp
  qed
  then obtain q where "tracking q" "have_video q"
    "eof q \<or> list_all (\<lambda>g. \<not> bos g) (upcoming q)" "collect_body x q = (Return TRUE, p')"
    by blast
  with collect_body_tracking [of q x "Return TRUE" p'] show ?thesis
    by simp
qed

lemma all_equal_distinct:
  assumes "distinct (map fst t)" and "x \<in> set t" and "\<forall>e \<in> set t. e = x"
  shows "t = [x]"
proof (cases t)
  case Nil
  with assms(2) show ?thesis
    by simp
next
  case (Cons y ys)
  with assms(3) have y: "y = x"
    by simp
  have "ys = []"
  proof (cases ys)
    case Nil
    then show ?thesis .
  next
    case (Cons z zs)
    with \<open>t = y # ys\<close> assms(3) have "z = x"
      by simp
    with y Cons \<open>t = y # ys\<close> assms(1) show ?thesis
      by simp
  qed
  with y Cons show ?thesis
    by simp
qed

lemma single_entry:
  assumes "tracking p" and "have_video p" and "vstream p = Some a" and "heap p a = Some os"
  shows "stream_table p = [(os_serialno os, a)]"
proof -
  from assms(1) have ok: "table_ok p" and ov: "only_video p" and vp: "video_placed p"
    by (simp_all add: tracking_def)
  have e: "en = (os_serialno os, a)" if m: "en \<in> set (stream_table p)" for en
  proof -
    obtain s b where en: "en = (s, b)"
      by (cases en)
    from m en ov assms(3) have b: "b = a"
      by (simp add: only_video_def)
    from m en b have "(s, a) \<in> set (stream_table p)"
      by simp
    from table_ok_entry [OF ok this] have "\<exists>os'. heap p a = Some os' \<and> os_serialno os' = s"
      by simp
    with assms(4) have "s = os_serialno os"
      by auto
    with en b show ?thesis
      by simp
  qed
  from vp assms(2,3,4) obtain en where en: "en \<in> set (stream_table p)"
    by (auto simp: video_placed_def)
  with e [OF en] have m: "(os_serialno os, a) \<in> set (stream_table p)"
    by simp
  from ok have d: "distinct (map fst (stream_table p))"
    by (simp add: table_ok_def)
  from e have all: "\<forall>en \<in> set (stream_table p). en = (os_serialno os, a)"
    by blast
  show ?thesis
    by (rule all_equal_distinct [OF d m all])
qed

section \<open>The mark of the video stream\<close>

lemma demux_next_page_target:
  assumes "demux_next_page x p = (r, p')"
  shows "have_video p' = have_video p \<and> vstream p' = vstream p"
proof -
  obtain c p1 where l: "page_loop x p = (c, p1)"
    by (cases "page_loop x p")
  from page_loop_kept [OF l] have k: "have_video p1 = have_video p" "vstream p1 = vstream p"
    by (simp_all add: kept_def)
  from assms l have "p' = p1 \<or> dispatch_page p1 = (r, p')"
    by (auto simp: demux_next_page_def split: ctl.splits)
  then show ?thesis
    using k by (auto simp: dispatch_page_def Let_def called_def split: option.splits if_splits)
qed

lemma scan_page_target:
  assumes "scan_page x p = (c, p')"
  shows "(have_video p \<longrightarrow> have_video p' \<and> vstream p' = vstream p) \<and>
    (vstream p' \<noteq> vstream p \<longrightarrow> have_video p')"
  using assms
  by (auto simp: scan_page_def Let_def called_def g_hash_table_remove_def
      split: option.splits if_splits prod.splits)

lemma discover_body_target:
  assumes "discover_body x p = (c, p')"
  shows "(have_video p \<longrightarrow> have_video p' \<and> vstream p' = vstream p) \<and>
    (vstream p' \<noteq> vstream p \<longrightarrow> have_video p')"
proof -
  obtain r p1 where n: "demux_next_page x p = (r, p1)"
    by (cases "demux_next_page x p")
  from assms n have "p' = p1 \<or> scan_page x p1 = (c, p')"
    by (auto simp: discover_body_def split: outcome.splits if_splits)
  with demux_next_page_target [OF n] scan_page_target [of x p1 c p'] show ?thesis
    by auto
qed

lemma discover_target:
  assumes "discover x p = (c, p')" and "have_video p"
  shows "have_video p' \<and> vstream p' = vstream p"
proof -
  have "\<exists>q. (have_video q \<and> vstream q = vstream p) \<and> discover_body x q = (c, p')
      \<and> c \<noteq> Continue"
  proof (rule discover_last [OF assms(1)])
    show "have_video p \<and> vstream p = vstream p"
      using assms(2) by simp
  next
    fix q q'
    assume "have_video q \<and> vstream q = vstream p" and "discover_body x q = (Continue, q')"
    with discover_body_target [of x q Continue q'] show "have_video q' \<and> vstream q' = vstream p"
      by simp
  qed
  then obtain q where "have_video q" "vstream q = vstream p" "discover_body x q = (c, p')"
    by blast
  with discover_body_target [of x q c p'] show ?thesis
    by simp
qed

lemma drain_body_target:
  assumes "drain_body x p = (c, p')"
  shows "have_video p' = have_video p \<and> vstream p' = vstream p"
proof (cases "\<exists>a os. vstream p = Some a \<and> heap p a = Some os")
  case False
  with assms show ?thesis
    by (auto simp: drain_body_def called_def split: option.splits)
next
  case True
  then obtain a os where v: "vstream p = Some a" "heap p a = Some os"
    by blast
  obtain r os' pkt where po: "ogg_stream_packetout os [] = (r, os', pkt)"
    by (cases "ogg_stream_packetout os []")
  let ?p1 = "called (Packetout a r) (p\<lparr>heap := (heap p)(a \<mapsto> os')\<rparr>)"
  from v po assms have "p' = ?p1 \<or> feed_packet x pkt ?p1 = (c, p')"
    by (auto simp: drain_body_def Let_def split: if_splits)
  then show ?thesis
    by (auto simp: called_def dest: feed_packet_registry)
qed

lemma drain_target:
  assumes "drain x p = (c, p')"
  shows "have_video p' = have_video p \<and> vstream p' = vstream p"
proof -
  have "\<exists>q. (have_video q = have_video p \<and> vstream q = vstream p)
      \<and> drain_body x q = (c, p') \<and> c \<noteq> Continue"
    by (rule drain_last [OF assms]) (auto dest: drain_body_target)
  then show ?thesis
    by (auto dest: drain_body_target)
qed

lemma collect_body_target:
  assumes "collect_body x p = (c, p')"
  shows "have_video p' = have_video p \<and> vstream p' = vstream p"
proof (cases "eof p")
  case True
  with assms show ?thesis
    by (simp add: collect_body_def)
next
  case False
  obtain c1 p1 where d: "drain x p = (c1, p1)"
    by (cases "drain x p")
  obtain r p2 where n: "demux_next_page x p1 = (r, p2)"
    by (cases "demux_next_page x p1")
  from collect_body_unfold [OF False d n] assms have "p' = p1 \<or> p' = p2"
    by (cases c1) (auto split: if_splits)
  with drain_target [OF d] demux_next_page_target [OF n] show ?thesis
    by auto
qed

lemma collect_target:
  assumes "collect x p = (c, p')"
  shows "have_video p' = have_video p \<and> vstream p' = vstream p"
proof -
  have "\<exists>q. (have_video q = have_video p \<and> vstream q = vstream p)
      \<and> collect_body x q = (c, p') \<and> c \<noteq> Continue"
    by (rule collect_last [OF assms]) (auto dest: collect_body_target)
  then show ?thesis
    by (auto dest: collect_body_target)
qed

lemma demux_headers_target:
  assumes "demux_headers x p = (r, p')" and "have_video p"
  shows "have_video p' \<and> vstream p' = vstream p"
proof -
  obtain c p1 where d: "discover x p = (c, p1)"
    by (cases "discover x p")
  obtain c2 p2 where k: "collect x p1 = (c2, p2)"
    by (cases "collect x p1")
  from assms(1) d k have "p' = p1 \<or> p' = p2"
    by (auto simp: demux_headers_def split: ctl.splits if_splits)
  with discover_target [OF d assms(2)] collect_target [OF k] show ?thesis
    by auto
qed

section \<open>A freed stream\<close>

lemma undisturbed_refl: "forgotten a p \<Longrightarrow> undisturbed a p p"
  by (simp add: undisturbed_def)

lemma undisturbed_trans: "undisturbed a p q \<Longrightarrow> undisturbed a q r \<Longrightarrow> undisturbed a p r"
  by (auto simp: undisturbed_def)

lemma undisturbed_forgotten: "undisturbed a p q \<Longrightarrow> forgotten a q"
  by (simp add: undisturbed_def)

lemma forgotten_lookup:
  "forgotten a p \<Longrightarrow> g_hash_table_lookup (stream_table p) s = Some b \<Longrightarrow> b \<noteq> a"
  by (force simp: forgotten_def dest: lookup_entry)

lemma retry_touches: "list_all retry cs \<Longrightarrow> \<not> list_ex (touches a) cs"
  by (induction cs) (auto elim: retry.elims)

lemma page_loop_undisturbed:
  assumes "page_loop x p = (c, p')" and "forgotten a p"
  shows "undisturbed a p p'"
proof -
  from page_loop_cases [OF assms(1)] obtain q cs where
    q: "retried p q cs" and b: "page_body x q = (c, p')"
    by blast
  from q assms(2) retry_touches [of cs a] have u: "undisturbed a p q"
    by (auto simp: retried_def kept_def undisturbed_def forgotten_def)
  from page_body_cases [OF b] undisturbed_forgotten [OF u] have "undisturbed a q p'"
    by (auto simp: kept_def undisturbed_def forgotten_def split: if_splits)
  with u show ?thesis
    by (rule undisturbed_trans)
qed

lemma dispatch_page_undisturbed:
  assumes "dispatch_page p = (r, p')" and "forgotten a p"
  shows "undisturbed a p p'"
proof (cases "g_hash_table_lookup (stream_table p) (serialno (current_page p))")
  case (Some b)
  from forgotten_lookup [OF assms(2) Some] have "b \<noteq> a" .
  with Some assms show ?thesis
    by (auto simp: dispatch_page_def Let_def called_def undisturbed_def forgotten_def
        split: option.splits)
next
  case None
  then have "serialno (current_page p) \<notin> fst ` set (stream_table p)"
    by (simp add: g_hash_table_lookup_def map_of_eq_None_iff)
  then have "AList.update (serialno (current_page p)) (brk p) (stream_table p) =
      stream_table p @ [(serialno (current_page p), brk p)]"
    by (rule update_fresh)
  with None assms show ?thesis
    by (auto simp: dispatch_page_def Let_def called_def undisturbed_def forgotten_def
        split: if_splits)
qed

lemma demux_next_page_undisturbed:
  assumes "demux_next_page x p = (r, p')" and "forgotten a p"
  shows "undisturbed a p p'"
proof -
  obtain c p1 where l: "page_loop x p = (c, p1)"
    by (cases "page_loop x p")
  note u = page_loop_undisturbed [OF l assms(2)]
  from assms(1) l have "p' = p1 \<or> dispatch_page p1 = (r, p')"
    by (auto simp: demux_next_page_def split: ctl.splits)
  then show ?thesis
  proof
    assume "p' = p1"
    with u show ?thesis
      by simp
  next
    assume "dispatch_page p1 = (r, p')"
    from dispatch_page_undisturbed [OF this undisturbed_forgotten [OF u]] u show ?thesis
      by (rule undisturbed_trans [rotated])
  qed
qed

lemma remove_undisturbed:
  assumes "forgotten a p"
  shows "undisturbed a p (g_hash_table_remove s p)"
proof -
  have "snd ` set (AList.delete s (stream_table p)) \<subseteq> snd ` set (stream_table p)"
    by (auto simp: AList.delete_eq)
  with assms show ?thesis
    by (auto simp: g_hash_table_remove_def called_def undisturbed_def forgotten_def
        split: option.splits)
qed

lemma scan_page_undisturbed:
  assumes "scan_page x p = (c, p')" and "forgotten a p"
  shows "undisturbed a p p'"
proof (cases "have_video p")
  case True
  with assms(1) have "p' = g_hash_table_remove (serialno (current_page p)) p"
    by (simp add: scan_page_def)
  with remove_undisturbed [OF assms(2)] show ?thesis
    by simp
next
  case False
  let ?s = "serialno (current_page p)"
  show ?thesis
  proof (cases "g_hash_table_lookup (stream_table p) ?s")
    case None
    with False assms show ?thesis
      by (simp add: scan_page_def undisturbed_refl)
  next
    case (Some b)
    from forgotten_lookup [OF assms(2) Some] have ba: "b \<noteq> a" .
    show ?thesis
    proof (cases "heap p b")
      case None
      with False Some ba assms show ?thesis
        by (auto simp: scan_page_def called_def undisturbed_def forgotten_def)
    next
      case (Some os)
      obtain r os' pkt where po: "ogg_stream_packetout os [] = (r, os', pkt)"
        by (cases "ogg_stream_packetout os []")
      let ?p1 = "called (Packetout b r) (p\<lparr>heap := (heap p)(b \<mapsto> os')\<rparr>)"
      obtain hs ti tc ts where
        hi: "th_decode_headerin x (tinfo ?p1, tcomment ?p1, tsetup ?p1) pkt = (hs, ti, tc, ts)"
        by (cases "th_decode_headerin x (tinfo ?p1, tcomment ?p1, tsetup ?p1) pkt")
      let ?p2 = "called (Headerin hs) (?p1\<lparr>tinfo := ti, tcomment := tc, tsetup := ts\<rparr>)"
      from ba assms(2) have u1: "undisturbed a p ?p1"
        by (auto simp: called_def undisturbed_def forgotten_def)
      from ba assms(2) have u2: "undisturbed a p ?p2"
        by (auto simp: called_def undisturbed_def forgotten_def)
      from ba assms(2) have u3: "undisturbed a p (?p2\<lparr>have_video := True, vstream := Some b\<rparr>)"
        by (auto simp: called_def undisturbed_def forgotten_def)
      from remove_undisturbed [OF undisturbed_forgotten [OF u2], of ?s] u2
      have u4: "undisturbed a p (g_hash_table_remove ?s ?p2)"
        by (rule undisturbed_trans [rotated])
      from False \<open>g_hash_table_lookup (stream_table p) ?s = Some b\<close> Some po hi assms(1)
      have "p' = ?p1 \<or> p' = ?p2 \<or> p' = ?p2\<lparr>have_video := True, vstream := Some b\<rparr>
          \<or> p' = g_hash_table_remove ?s ?p2"
        by (auto simp: scan_page_def Let_def split: if_splits)
      with u1 u2 u3 u4 show ?thesis
        by auto
    qed
  qed
qed

lemma discover_body_undisturbed:
  assumes "discover_body x p = (c, p')" and "forgotten a p"
  shows "undisturbed a p p'"
proof -
  obtain r p1 where n: "demux_next_page x p = (r, p1)"
    by (cases "demux_next_page x p")
  note u = demux_next_page_undisturbed [OF n assms(2)]
  from assms(1) n have "p' = p1 \<or> scan_page x p1 = (c, p')"
    by (auto simp: discover_body_def split: outcome.splits if_splits)
  then show ?thesis
  proof
    assume "p' = p1"
    with u show ?thesis
      by simp
  next
    assume "scan_page x p1 = (c, p')"
    from scan_page_undisturbed [OF this undisturbed_forgotten [OF u]] u show ?thesis
      by (rule undisturbed_trans [rotated])
  qed
qed

lemma discover_undisturbed:
  assumes "discover x p = (c, p')" and "forgotten a p"
  shows "undisturbed a p p'"
proof -
  have "\<exists>q. undisturbed a p q \<and> discover_body x q = (c, p') \<and> c \<noteq> Continue"
  proof (rule discover_last [OF assms(1)])
    show "undisturbed a p p"
      using assms(2) by (rule undisturbed_refl)
  next
    fix q q'
    assume u: "undisturbed a p q" and b: "discover_body x q = (Continue, q')"
    from discover_body_undisturbed [OF b undisturbed_forgotten [OF u]] u
    show "undisturbed a p q'"
      by (rule undisturbed_trans [rotated])
  qed
  then obtain q where u: "undisturbed a p q" and b: "discover_body x q = (c, p')"
    by blast
  from discover_body_undisturbed [OF b undisturbed_forgotten [OF u]] u show ?thesis
    by (rule undisturbed_trans [rotated])
qed

lemma feed_packet_undisturbed:
  assumes "feed_packet x pkt p = (c, p')" and "forgotten a p"
  shows "undisturbed a p p'"
  using assms
  by (auto simp: feed_packet_def Let_def called_def undisturbed_def forgotten_def
      split: prod.splits if_splits)

lemma drain_body_undisturbed:
  assumes "drain_body x p = (c, p')" and "forgotten a p"
  shows "undisturbed a p p'"
proof (cases "vstream p")
  case None
  with assms show ?thesis
    by (simp add: drain_body_def undisturbed_refl)
next
  case (Some b)
  with assms(2) have ba: "b \<noteq> a"
    by (auto simp: forgotten_def)
  show ?thesis
  proof (cases "heap p b")
    case None
    with Some ba assms show ?thesis
      by (auto simp: drain_body_def called_def undisturbed_def forgotten_def)
  next
    case (Some os)
    obtain r os' pkt where po: "ogg_stream_packetout os [] = (r, os', pkt)"
      by (cases "ogg_stream_packetout os []")
    let ?p1 = "called (Packetout b r) (p\<lparr>heap := (heap p)(b \<mapsto> os')\<rparr>)"
    from ba assms(2) have u1: "undisturbed a p ?p1"
      by (auto simp: called_def undisturbed_def forgotten_def)
    from \<open>vstream p = Some b\<close> Some po assms(1)
    have "p' = ?p1 \<or> feed_packet x pkt ?p1 = (c, p')"
      by (auto simp: drain_body_def Let_def split: if_splits)
    then show ?thesis
    proof
      assume "p' = ?p1"
      with u1 show ?thesis
        by simp
    next
      assume "feed_packet x pkt ?p1 = (c, p')"
      from feed_packet_undisturbed [OF this undisturbed_forgotten [OF u1]] u1 show ?thesis
        by (rule undisturbed_trans [rotated])
    qed
  qed
qed

lemma drain_undisturbed:
  assumes "drain x p = (c, p')" and "forgotten a p"
  shows "undisturbed a p p'"
proof -
  have "\<exists>q. undisturbed a p q \<and> drain_body x q = (c, p') \<and> c \<noteq> Continue"
  proof (rule drain_last [OF assms(1)])
    show "undisturbed a p p"
      using assms(2) by (rule undisturbed_refl)
  next
    fix q q'
    assume u: "undisturbed a p q" and b: "drain_body x q = (Continue, q')"
    from drain_body_undisturbed [OF b undisturbed_forgotten [OF u]] u
    show "undisturbed a p q'"
      by (rule undisturbed_trans [rotated])
  qed
  then obtain q where u: "undisturbed a p q" and b: "drain_body x q = (c, p')"
    by blast
  from drain_body_undisturbed [OF b undisturbed_forgotten [OF u]] u show ?thesis
    by (rule undisturbed_trans [rotated])
qed

lemma collect_body_undisturbed:
  assumes "collect_body x p = (c, p')" and "forgotten a p"
  shows "undisturbed a p p'"
proof (cases "eof p")
  case True
  with assms show ?thesis
    by (simp add: collect_body_def undisturbed_refl)
next
  case False
  obtain c1 p1 where d: "drain x p = (c1, p1)"
    by (cases "drain x p")
  obtain r p2 where n: "demux_next_page x p1 = (r, p2)"
    by (cases "demux_next_page x p1")
  note u = drain_undisturbed [OF d assms(2)]
  from demux_next_page_undisturbed [OF n undisturbed_forgotten [OF u]] u
  have u2: "undisturbed a p p2"
    by (rule undisturbed_trans [rotated])
  from collect_body_unfold [OF False d n] assms(1) have "p' = p1 \<or> p' = p2"
    by (cases c1) (auto split: if_splits)
  with u u2 show ?thesis
    by auto
qed

lemma collect_undisturbed:
  assumes "collect x p = (c, p')" and "forgotten a p"
  shows "undisturbed a p p'"
proof -
  have "\<exists>q. undisturbed a p q \<and> collect_body x q = (c, p') \<and> c \<noteq> Continue"
  proof (rule collect_last [OF assms(1)])
    show "undisturbed a p p"
      using assms(2) by (rule undisturbed_refl)
  next
    fix q q'
    assume u: "undisturbed a p q" and b: "collect_body x q = (Continue, q')"
    from collect_body_undisturbed [OF b undisturbed_forgotten [OF u]] u
    show "undisturbed a p q'"
      by (rule undisturbed_trans [rotated])
  qed
  then obtain q where u: "undisturbed a p q" and b: "collect_body x q = (c, p')"
    by blast
  from collect_body_undisturbed [OF b undisturbed_forgotten [OF u]] u show ?thesis
    by (rule undisturbed_trans [rotated])
qed

lemma demux_headers_undisturbed:
  assumes "demux_headers x p = (r, p')" and "forgotten a p"
  shows "undisturbed a p p'"
proof -
  obtain c p1 where d: "discover x p = (c, p1)"
    by (cases "discover x p")
  obtain c2 p2 where k: "collect x p1 = (c2, p2)"
    by (cases "collect x p1")
  note u = discover_undisturbed [OF d assms(2)]
  from collect_undisturbed [OF k undisturbed_forgotten [OF u]] u
  have u2: "undisturbed a p p2"
    by (rule undisturbed_trans [rotated])
  from assms(1) d k have "p' = p1 \<or> p' = p2"
    by (auto simp: demux_headers_def split: ctl.splits if_splits)
  with u u2 show ?thesis
    by auto
qed

lemma touches_set:
  "\<not> list_ex (touches a) cs \<longleftrightarrow>
     Pagein a \<notin> set cs \<and> Pagein_freed a \<notin> set cs \<and>
     (\<forall>k. Packetout a k \<notin> set cs) \<and> Packetout_freed a \<notin> set cs"
proof (induction cs)
  case Nil
  show ?case
    by simp
next
  case (Cons c cs)
  then show ?case
    by (cases c) auto
qed

lemma undisturbed_since:
  assumes "undisturbed a p p'"
  shows "Pagein a \<notin> set (since p p') \<and> Pagein_freed a \<notin> set (since p p') \<and>
    (\<forall>k. Packetout a k \<notin> set (since p p')) \<and> Packetout_freed a \<notin> set (since p p') \<and>
    heap p' a = None"
proof -
  from assms obtain cs where "calls p' = calls p @ cs" "\<not> list_ex (touches a) cs"
    and "forgotten a p'"
    by (auto simp: undisturbed_def)
  then show ?thesis
    by (simp add: since_def touches_set forgotten_def)
qed

text \<open>What a pass of the first loop leaves of a stream it discards as not Theora.\<close>

lemma scan_page_discards:
  assumes "table_ok p" and "\<not> have_video p"
    and "g_hash_table_lookup (stream_table p) (serialno (current_page p)) = Some a"
    and "scan_page x p = (Continue, p')" and "\<not> have_video p'"
  shows "Headerin TH_ENOTFORMAT \<in> set (since p p') \<and>
    g_hash_table_lookup (stream_table p') (serialno (current_page p)) = None \<and>
    heap p' a = None \<and> a < brk p' \<and> a \<notin> snd ` set (stream_table p') \<and>
    vstream p' = vstream p"
proof -
  let ?s = "serialno (current_page p)"
  from table_ok_lookup [OF assms(1,3)] obtain os where
    a: "a < brk p" and h: "heap p a = Some os"
    by blast
  have inj: "b \<noteq> a" if "(s', b) \<in> set (AList.delete ?s (stream_table p))" for s' b
  proof -
    from that have e: "(s', b) \<in> set (stream_table p)" and ne: "s' \<noteq> ?s"
      by (auto simp: AList.delete_eq)
    from table_ok_entry [OF assms(1) e] obtain os' where
      "heap p b = Some os'" "os_serialno os' = s'"
      by blast
    moreover from table_ok_lookup [OF assms(1,3)] obtain os'' where
      "heap p a = Some os''" "os_serialno os'' = ?s"
      by blast
    ultimately show ?thesis
      using ne by auto
  qed
  then have ni: "a \<notin> snd ` set (AList.delete ?s (stream_table p))"
    by force
  from assms(2-5) a h ni show ?thesis
    by (auto simp: scan_page_def Let_def g_hash_table_remove_def called_def
        since_def g_hash_table_lookup_def delete_conv'
        split: option.splits prod.splits if_splits)
qed

text \<open>
  The video stream itself can be freed and asked for a packet afterwards: a second
  beginning-of-stream page with its serial number removes its entry at line 126, and
  line 142 gives \<open>vstream\<close> to \<^verbatim>\<open>ogg_stream_packetout\<close>.
\<close>

lemma freed_target_asked:
  "fst (demux_headers (sample_ext []) (blank_player 3 restarted_video)) = Undefined \<and>
   vstream (snd (demux_headers (sample_ext []) (blank_player 3 restarted_video))) = Some 0 \<and>
   heap (snd (demux_headers (sample_ext []) (blank_player 3 restarted_video))) 0 = None \<and>
   last (calls (snd (demux_headers (sample_ext []) (blank_player 3 restarted_video)))) =
     Packetout_freed 0"
  by code_simp

section \<open>The claims\<close>

subsection \<open>Allocation of the decode context\<close>

text \<open>
  C1. In the second loop of \<^verbatim>\<open>demux_headers\<close> the decode context is allocated exactly
  when a header feed returns 0, and that is exactly when the loop returns \<^verbatim>\<open>TRUE\<close>.
  \<^verbatim>\<open>demux_headers\<close> as a whole calls \<^verbatim>\<open>th_decode_alloc\<close> exactly when it returns
  \<^verbatim>\<open>TRUE\<close>; then the header feed that returned 0 and the allocation are its last two
  calls (no page is asked for after them), no allocation came before, and the player
  holds what \<^verbatim>\<open>th_decode_alloc\<close> returned. On every other outcome the decode context
  is the one the player had. A player returned by \<^verbatim>\<open>video_player_new\<close> is in that
  final state.
\<close>

theorem alloc_on_completion:
  "(\<forall>c q'. collect x q = (c, q') \<longrightarrow>
      (c = Return TRUE \<longleftrightarrow> Headerin 0 \<in> set (since q q')) \<and>
      (c = Return TRUE \<longleftrightarrow> Decode_alloc \<in> set (since q q'))) \<and>
   (\<forall>r p'. demux_headers x p = (r, p') \<longrightarrow>
      calls p' = calls p @ since p p' \<and>
      (r = TRUE \<longleftrightarrow> Decode_alloc \<in> set (since p p')) \<and>
      (r = TRUE \<longrightarrow>
         (\<exists>pre. since p p' = pre @ [Headerin 0, Decode_alloc] \<and> Decode_alloc \<notin> set pre) \<and>
         vdecoder p' = th_decode_alloc x (tinfo p') (tsetup p')) \<and>
      (r \<noteq> TRUE \<longrightarrow> vdecoder p' = vdecoder p)) \<and>
   (\<forall>p'. video_player_new x f = Handle p' \<longrightarrow>
      (\<exists>pre. calls p' = pre @ [Headerin 0, Decode_alloc] \<and> Decode_alloc \<notin> set pre) \<and>
      vdecoder p' = th_decode_alloc x (tinfo p') (tsetup p'))"
proof -
  have A: "(c = Return TRUE \<longleftrightarrow> Headerin 0 \<in> set (since q q')) \<and>
      (c = Return TRUE \<longleftrightarrow> Decode_alloc \<in> set (since q q'))"
    if k: "collect x q = (c, q')" for c q'
  proof (cases "c = Return TRUE")
    case True
    with collect_alloc [OF k] have "allocated x {Headerin 0, Decode_alloc} q q'"
      by simp
    from allocated_since [OF this] True show ?thesis
      by auto
  next
    case False
    with collect_alloc [OF k] have "without {Headerin 0, Decode_alloc} q q'"
      by simp
    from without_since [OF this] False show ?thesis
      by auto
  qed
  have B: "calls p' = calls p @ since p p' \<and>
      (r = TRUE \<longleftrightarrow> Decode_alloc \<in> set (since p p')) \<and>
      (r = TRUE \<longrightarrow>
         (\<exists>pre. since p p' = pre @ [Headerin 0, Decode_alloc] \<and> Decode_alloc \<notin> set pre) \<and>
         vdecoder p' = th_decode_alloc x (tinfo p') (tsetup p')) \<and>
      (r \<noteq> TRUE \<longrightarrow> vdecoder p' = vdecoder p)"
    if d: "demux_headers x p = (r, p')" for r p' p
  proof (cases "r = TRUE")
    case True
    with demux_headers_alloc [OF d] have "allocated x {Decode_alloc} p p'"
      by simp
    from allocated_since [OF this] True show ?thesis
      by auto
  next
    case False
    with demux_headers_alloc [OF d] have "without {Decode_alloc} p p'"
      by simp
    from without_since [OF this] False show ?thesis
      by auto
  qed
  have C: "(\<exists>pre. calls p' = pre @ [Headerin 0, Decode_alloc] \<and> Decode_alloc \<notin> set pre) \<and>
      vdecoder p' = th_decode_alloc x (tinfo p') (tsetup p')"
    if n: "video_player_new x f = Handle p'" for p'
  proof -
    obtain d e g where o: "sys_open x f = (d, e, g)"
      by (cases "sys_open x f")
    with n have "demux_headers x (blank_player d g) = (TRUE, p')"
      by (auto simp: video_player_new_def Let_def split: if_splits prod.splits outcome.splits)
    from B [OF this] show ?thesis
      by (simp add: since_def blank_player_def)
  qed
  from A B [of p] C show ?thesis
    by blast
qed

theorem alloc_on_completion_witness:
  "fst (collect (sample_ext []) (snd (discover (sample_ext []) (blank_player 3 sample_file))))
     = Return TRUE \<and>
   fst (demux_headers (sample_ext []) (blank_player 3 truncated_file)) \<noteq> TRUE \<and>
   vdecoder (snd (demux_headers (sample_ext []) (blank_player 3 truncated_file))) = None \<and>
   (case video_player_new (sample_ext sample_file) ''a.ogv'' of
      Handle p' \<Rightarrow> vdecoder p' = Some 7 \<and> Decode_alloc \<notin> set (butlast (calls p'))
    | _ \<Rightarrow> False)"
proof -
  let ?x = "sample_ext []"
  let ?q = "snd (discover ?x (blank_player 3 sample_file))"
  let ?t = "blank_player 3 truncated_file"
  note T = alloc_on_completion [of ?x ?q ?t "''a.ogv''"]
  have 1: "Headerin 0 \<in> set (since ?q (snd (collect ?x ?q)))"
    by code_simp
  have 2: "Decode_alloc \<notin> set (since ?t (snd (demux_headers ?x ?t)))"
    by code_simp
  have 3: "vdecoder ?t = None"
    by (simp add: blank_player_def)
  have "case video_player_new (sample_ext sample_file) ''a.ogv'' of
      Handle p' \<Rightarrow> True | _ \<Rightarrow> False"
    by code_simp
  then obtain p' where h: "video_player_new (sample_ext sample_file) ''a.ogv'' = Handle p'"
    by (cases "video_player_new (sample_ext sample_file) ''a.ogv''") simp_all
  from alloc_on_completion [of "sample_ext sample_file" ?q ?t "''a.ogv''"] h
  have "(\<exists>pre. calls p' = pre @ [Headerin 0, Decode_alloc] \<and> Decode_alloc \<notin> set pre) \<and>
      vdecoder p' = th_decode_alloc (sample_ext sample_file) (tinfo p') (tsetup p')"
    by blast
  then have 4: "vdecoder p' = Some 7 \<and> Decode_alloc \<notin> set (butlast (calls p'))"
    by (auto simp: sample_ext_def butlast_append)
  from T 1 have 5: "fst (collect ?x ?q) = Return TRUE"
    by (metis prod.collapse)
  from T 2 3 have 6: "fst (demux_headers ?x ?t) \<noteq> TRUE
      \<and> vdecoder (snd (demux_headers ?x ?t)) = None"
    by (metis prod.collapse)
  from 4 5 6 h show ?thesis
    by simp
qed

subsection \<open>End of input among the headers\<close>

text \<open>
  C2, as the specification has it: a file that ends after the video stream was found
  and before its headers are complete makes negotiation fail with the kind
  \<open>IncompleteHeaders\<close>, not \<open>BadHeaders\<close>. On \<open>truncated_file\<close> the video stream is
  found, the end of input is met, and \<^verbatim>\<open>demux_headers\<close> fails with the code
  \<^verbatim>\<open>VIDEO_PLAYER_BAD_HEADERS\<close>: the code has no other code for this case, only another
  message.
\<close>

theorem incomplete_headers_counterexample:
  "have_video (snd (demux_headers (sample_ext []) (blank_player 3 truncated_file))) \<and>
   eof (snd (demux_headers (sample_ext []) (blank_player 3 truncated_file))) \<and>
   fst (demux_headers (sample_ext []) (blank_player 3 truncated_file)) =
     FALSE (VIDEO_PLAYER_ERROR VIDEO_PLAYER_BAD_HEADERS
       ''Failed to find all necessary Theora headers.'') \<and>
   spec_kind (VIDEO_PLAYER_ERROR VIDEO_PLAYER_BAD_HEADERS
       ''Failed to find all necessary Theora headers.'') \<noteq> IncompleteHeaders"
  by code_simp

text \<open>
  C2, amended. Whenever \<^verbatim>\<open>demux_headers\<close>, started before the end of input, ends
  with the end of input met and the video stream found, it has returned \<^verbatim>\<open>FALSE\<close>
  with the code \<^verbatim>\<open>VIDEO_PLAYER_BAD_HEADERS\<close> (the kind \<open>BadHeaders\<close>) and the message
  ``Failed to find all necessary Theora headers.'', it has not called
  \<^verbatim>\<open>th_decode_alloc\<close>, and the decode context is the one the player had.
\<close>

theorem end_of_input_in_headers:
  assumes "demux_headers x p = (r, p')" and "\<not> eof p" and "eof p'" and "have_video p'"
  shows "r = FALSE (VIDEO_PLAYER_ERROR VIDEO_PLAYER_BAD_HEADERS
             ''Failed to find all necessary Theora headers.'') \<and>
    (\<forall>e. r = FALSE e \<longrightarrow> spec_kind e = BadHeaders) \<and>
    Decode_alloc \<notin> set (since p p') \<and> vdecoder p' = vdecoder p"
proof -
  obtain c p1 where d: "discover x p = (c, p1)"
    by (cases "discover x p")
  obtain c2 p2 where k: "collect x p1 = (c2, p2)"
    by (cases "collect x p1")
  have r: "r = FALSE (VIDEO_PLAYER_ERROR VIDEO_PLAYER_BAD_HEADERS
             ''Failed to find all necessary Theora headers.'')"
  proof (cases "\<exists>v. c = Return v")
    case True
    with assms(1) d have "p' = p1"
      by (auto simp: demux_headers_def)
    with discover_eof_Break [OF d assms(2)] True assms(3) show ?thesis
      by auto
  next
    case False
    show ?thesis
    proof (cases "have_video p1")
      case True
      with False assms(1) d k have p2: "p' = p2"
        by (cases c; cases c2; auto simp: demux_headers_def)
      with collect_eof_Break [OF k] assms(3) have "c2 = Break"
        by simp
      with True False assms(1) d k show ?thesis
        by (cases c; auto simp: demux_headers_def)
    next
      case nv: False
      with False assms(1) d have "p' = p1"
        by (cases c; auto simp: demux_headers_def)
      with nv assms(4) show ?thesis
        by simp
    qed
  qed
  from r demux_headers_alloc [OF assms(1)] have "without {Decode_alloc} p p'"
    by simp
  from without_since [OF this] r show ?thesis
    by auto
qed

theorem end_of_input_in_headers_witness:
  "\<not> eof (blank_player 3 truncated_file) \<and>
   fst (demux_headers (sample_ext []) (blank_player 3 truncated_file)) =
     FALSE (VIDEO_PLAYER_ERROR VIDEO_PLAYER_BAD_HEADERS
       ''Failed to find all necessary Theora headers.'') \<and>
   vdecoder (snd (demux_headers (sample_ext []) (blank_player 3 truncated_file))) = None"
proof -
  let ?x = "sample_ext []"
  let ?t = "blank_player 3 truncated_file"
  have d: "demux_headers ?x ?t = (fst (demux_headers ?x ?t), snd (demux_headers ?x ?t))"
    by simp
  have n: "\<not> eof ?t" and v: "vdecoder ?t = None"
    by (simp_all add: blank_player_def)
  have e: "eof (snd (demux_headers ?x ?t))" and h: "have_video (snd (demux_headers ?x ?t))"
    by code_simp+
  from end_of_input_in_headers [OF d n e h] n v show ?thesis
    by simp
qed

subsection \<open>A file without a video stream\<close>

text \<open>
  C3, as the specification has it: a file without a Theora stream makes negotiation
  fail with \<open>NoTargetStreamFound\<close> and with no other kind. \<open>split_first_packet\<close> holds
  one stream, and the parser \<open>deaf_ext\<close> takes no packet for Theora; the first page of
  the stream ends before its first packet does, and \<^verbatim>\<open>video_player_new\<close> fails with
  \<^verbatim>\<open>VIDEO_PLAYER_BAD_HEADERS\<close>, as lines 104 to 108 say it must.
\<close>

theorem no_video_stream_counterexample:
  "failure (video_player_new (deaf_ext split_first_packet) ''a.ogv'') =
     Some (VIDEO_PLAYER_ERROR VIDEO_PLAYER_BAD_HEADERS ''Bad headers in video file.'',
       [Pageout 0, Read 60 0, Pageout 1, Table_insert 10 0, Pagein 0, Packetout 0 0,
        Comment_clear, Info_clear, Table_destroy, Sync_clear, Close 3, Free_player]) \<and>
   spec_kind (VIDEO_PLAYER_ERROR VIDEO_PLAYER_BAD_HEADERS ''Bad headers in video file.'')
     \<noteq> NoTargetStreamFound"
  by code_simp

text \<open>
  C3, amended. When the file opens, no read fails, and every page that begins a stream
  at the head of the file (before the first page that begins none) holds a whole first
  packet to which the header parser, fed the packets in the order of the pages from its
  initial state, answers \<^verbatim>\<open>TH_ENOTFORMAT\<close>, then \<^verbatim>\<open>video_player_new\<close> returns \<^verbatim>\<open>NULL\<close>
  with the code \<^verbatim>\<open>VIDEO_PLAYER_NO_VIDEO\<close> (the kind \<open>NoTargetStreamFound\<close>), however
  many such streams there are.
\<close>

theorem no_video_stream:
  assumes "sys_open x name = (d, e, f)" and "0 \<le> d"
    and "\<forall>k \<in> set f. 0 \<le> bytes k"
    and "foreign_streams x (0, 0, None) (file_pages f)"
  shows "(\<exists>cs. video_player_new x name =
      Null (VIDEO_PLAYER_ERROR VIDEO_PLAYER_NO_VIDEO
        ''Failed to find a Theora stream in the video file.'') cs) \<and>
    spec_kind (VIDEO_PLAYER_ERROR VIDEO_PLAYER_NO_VIDEO
        ''Failed to find a Theora stream in the video file.'') = NoTargetStreamFound"
proof -
  have s: "seeking x (blank_player d f)"
    using assms(3,4) by (simp add: seeking_def blank_player_def upcoming_def)
  obtain c p1 where di: "discover x (blank_player d f) = (c, p1)"
    by (cases "discover x (blank_player d f)")
  from discover_seeking [OF s di]
  have "demux_headers x (blank_player d f) =
      (FALSE (VIDEO_PLAYER_ERROR VIDEO_PLAYER_NO_VIDEO
        ''Failed to find a Theora stream in the video file.''), p1)"
    using di by (simp add: demux_headers_def)
  with assms(1,2) have "\<exists>cs. video_player_new x name =
      Null (VIDEO_PLAYER_ERROR VIDEO_PLAYER_NO_VIDEO
        ''Failed to find a Theora stream in the video file.'') cs"
    by (simp add: video_player_new_def Let_def blank_player_def)
  then show ?thesis
    by simp
qed

theorem no_video_stream_witness:
  "length (filter bos (file_pages audio_file)) = 2 \<and>
   foreign_streams (sample_ext audio_file) (0, 0, None) (file_pages audio_file) \<and>
   \<not> foreign_streams (sample_ext sample_file) (0, 0, None) (file_pages sample_file) \<and>
   (\<exists>cs. video_player_new (sample_ext audio_file) ''a.ogv'' =
      Null (VIDEO_PLAYER_ERROR VIDEO_PLAYER_NO_VIDEO
        ''Failed to find a Theora stream in the video file.'') cs)"
proof -
  have o: "sys_open (sample_ext audio_file) ''a.ogv'' = (3, 0, audio_file)"
    by (simp add: sample_ext_def)
  have d: "(0::int) \<le> 3"
    by simp
  have r: "\<forall>k \<in> set audio_file. 0 \<le> bytes k"
    by (simp add: audio_file_def)
  have f: "foreign_streams (sample_ext audio_file) (0, 0, None) (file_pages audio_file)"
    by code_simp
  have g: "\<not> foreign_streams (sample_ext sample_file) (0, 0, None) (file_pages sample_file)"
    by code_simp
  have n: "length (filter bos (file_pages audio_file)) = 2"
    by code_simp
  from no_video_stream [OF o d r f] f g n show ?thesis
    by simp
qed

subsection \<open>The table after a successful open\<close>

text \<open>
  C4, as the specification has it: whenever \<^verbatim>\<open>video_player_new\<close> succeeds, the table
  holds one entry, the video stream's. In \<open>late_stream_file\<close> the first page of an
  audio stream comes after a page that begins no stream. The first loop has ended by
  then; the second loop routes the page, which registers the stream, and discards
  nothing. \<^verbatim>\<open>video_player_new\<close> succeeds with two entries in the table.
\<close>

theorem one_entry_counterexample:
  "map_option stream_table (handle (video_player_new (sample_ext late_stream_file) ''a.ogv''))
     = Some [(20, 0), (10, 1)] \<and>
   map_option vstream (handle (video_player_new (sample_ext late_stream_file) ''a.ogv''))
     = Some (Some 0)"
  by code_simp

text \<open>
  C4, amended. When every page of the file that begins a stream comes before every
  page that does not, and \<^verbatim>\<open>video_player_new\<close> succeeds, the table holds exactly one
  entry; it is the stream \<open>vstream\<close> points to, alive, under its own serial number.
\<close>

theorem one_entry:
  assumes "sys_open x name = (d, e, f)" and "bos_first (file_pages f)"
    and "video_player_new x name = Handle p'"
  shows "\<exists>s a os. stream_table p' = [(s, a)] \<and> vstream p' = Some a \<and>
    heap p' a = Some os \<and> os_serialno os = s"
proof -
  let ?p = "blank_player d f"
  from assms(1,3) have dh: "demux_headers x ?p = (TRUE, p')"
    by (auto simp: video_player_new_def Let_def split: if_splits outcome.splits prod.splits)
  obtain c p1 where di: "discover x ?p = (c, p1)"
    by (cases "discover x ?p")
  obtain c2 p2 where co: "collect x p1 = (c2, p2)"
    by (cases "collect x p1")
  from discover_without [OF di] have nt: "c \<noteq> Return TRUE"
    by simp
  have "\<exists>q. True \<and> discover_body x q = (c, p1) \<and> c \<noteq> Continue"
    by (rule discover_last [OF di]) simp_all
  then have nc: "c \<noteq> Continue"
    by blast
  from dh di nt nc have c: "c = Break"
    by (cases c) (auto simp: demux_headers_def)
  with dh di co have hv: "have_video p1" and c2: "c2 = Return TRUE" and p2: "p2 = p'"
    by (cases c2; auto simp: demux_headers_def split: if_splits)+
  have t: "tracking ?p" and u: "bos_first (upcoming ?p)" and ne: "\<not> eof ?p"
    using assms(2)
    by (simp_all add: tracking_def table_ok_def only_video_def video_placed_def
        blank_player_def upcoming_def)
  from discover_tracking [OF t u _ ne] di c
  have t1: "tracking p1" and nb: "eof p1 \<or> list_all (\<lambda>g. \<not> bos g) (upcoming p1)"
    by simp_all
  from co c2 p2 have co': "collect x p1 = (Return TRUE, p')"
    by simp
  from collect_tracking [OF t1 hv nb co'] obtain a os where
    "tracking p'" "have_video p'" "vstream p' = Some a" "heap p' a = Some os"
    by blast
  with single_entry [of p' a os] show ?thesis
    by simp
qed

theorem one_entry_witness:
  "bos_first (file_pages sample_file) \<and>
   (\<exists>p' a os. video_player_new (sample_ext sample_file) ''a.ogv'' = Handle p' \<and>
      stream_table p' = [(20, a)] \<and> vstream p' = Some a \<and> heap p' a = Some os)"
proof -
  let ?x = "sample_ext sample_file"
  have o: "sys_open ?x ''a.ogv'' = (3, 0, sample_file)"
    by (simp add: sample_ext_def)
  have b: "bos_first (file_pages sample_file)"
    by (simp add: sample_file_def file_pages_def audio_bos_def video_bos_def audio_more_def
        video_comment_def video_setup_def)
  have "case video_player_new ?x ''a.ogv'' of Handle p' \<Rightarrow> True | _ \<Rightarrow> False"
    by code_simp
  then obtain p' where h: "video_player_new ?x ''a.ogv'' = Handle p'"
    by (cases "video_player_new ?x ''a.ogv''") simp_all
  have "map_option (map fst \<circ> stream_table) (handle (video_player_new ?x ''a.ogv''))
      = Some [20]"
    by code_simp
  with h have k: "map fst (stream_table p') = [20]"
    by simp
  from one_entry [OF o b h] k h b show ?thesis
    by auto
qed

subsection \<open>One video stream\<close>

text \<open>
  C5. The calls \<^verbatim>\<open>ogg_stream_pagein\<close> and \<^verbatim>\<open>ogg_stream_packetout\<close> are logged with the
  address of the stream they are given, also when that stream has been freed
  (\<open>Pagein_freed\<close>, \<open>Packetout_freed\<close>). (1) A pass of the first loop changes \<open>vstream\<close>
  only when no video stream was found before it, and then one is found after it; once
  one is found, a pass of the first loop, the whole second loop and the rest of
  \<^verbatim>\<open>demux_headers\<close> leave the mark and \<open>vstream\<close> as they are. (2) When the video
  stream is found and \<^verbatim>\<open>demux_next_page\<close> delivers a beginning-of-stream page in the
  first loop, the pass does nothing but \<^verbatim>\<open>g_hash_table_remove\<close> of its serial number:
  no packet is asked of the stream, no header is fed, and the table has no entry for
  the serial number afterwards. (3) When a pass of the first loop discards the stream
  at address \<open>a\<close> as not Theora, the table has no entry for its serial number and no
  entry with this stream, the stream is freed, and \<open>vstream\<close> is as before. (4) A
  stream that is freed, in no entry of the table and not \<open>vstream\<close> is in none of the
  calls \<open>Pagein\<close>, \<open>Pagein_freed\<close>, \<open>Packetout\<close>, \<open>Packetout_freed\<close> made in the rest of
  the first loop, in the second loop, or in the rest of \<^verbatim>\<open>demux_headers\<close>, and stays
  freed. (5) So the stream that a pass of the first loop discards as not Theora, when
  it was not \<open>vstream\<close>, is in none of these calls for the rest of \<^verbatim>\<open>demux_headers\<close>.
\<close>

theorem one_target:
  "(\<forall>c p'. discover_body x p = (c, p') \<longrightarrow>
      (have_video p \<longrightarrow> have_video p' \<and> vstream p' = vstream p) \<and>
      (vstream p' \<noteq> vstream p \<longrightarrow> \<not> have_video p \<and> have_video p')) \<and>
   (\<forall>c p'. collect x p = (c, p') \<longrightarrow>
      have_video p' = have_video p \<and> vstream p' = vstream p) \<and>
   (\<forall>r p'. demux_headers x p = (r, p') \<longrightarrow> have_video p \<longrightarrow>
      have_video p' \<and> vstream p' = vstream p) \<and>
   (\<forall>p1 p'. demux_next_page x p = (TRUE, p1) \<and> \<not> eof p1 \<and> bos (current_page p1) \<and>
        have_video p1 \<and> p' = g_hash_table_remove (serialno (current_page p1)) p1 \<longrightarrow>
      discover_body x p = (Continue, p') \<and>
      g_hash_table_lookup (stream_table p') (serialno (current_page p1)) = None \<and>
      since p1 p' = [Table_remove (serialno (current_page p1))] \<and>
      tinfo p' = tinfo p1 \<and> tcomment p' = tcomment p1 \<and> tsetup p' = tsetup p1) \<and>
   (\<forall>a p'. table_ok p \<and> \<not> have_video p \<and>
        g_hash_table_lookup (stream_table p) (serialno (current_page p)) = Some a \<and>
        scan_page x p = (Continue, p') \<and> \<not> have_video p' \<longrightarrow>
      Headerin TH_ENOTFORMAT \<in> set (since p p') \<and>
      g_hash_table_lookup (stream_table p') (serialno (current_page p)) = None \<and>
      heap p' a = None \<and> a < brk p' \<and> a \<notin> snd ` set (stream_table p') \<and>
      vstream p' = vstream p) \<and>
   (\<forall>a. heap p a = None \<and> a < brk p \<and> a \<notin> snd ` set (stream_table p) \<and>
        vstream p \<noteq> Some a \<longrightarrow>
      (\<forall>c p'. discover x p = (c, p') \<longrightarrow>
         Pagein a \<notin> set (since p p') \<and> Pagein_freed a \<notin> set (since p p') \<and>
         (\<forall>k. Packetout a k \<notin> set (since p p')) \<and>
         Packetout_freed a \<notin> set (since p p') \<and> heap p' a = None) \<and>
      (\<forall>c p'. collect x p = (c, p') \<longrightarrow>
         Pagein a \<notin> set (since p p') \<and> Pagein_freed a \<notin> set (since p p') \<and>
         (\<forall>k. Packetout a k \<notin> set (since p p')) \<and>
         Packetout_freed a \<notin> set (since p p') \<and> heap p' a = None) \<and>
      (\<forall>r p'. demux_headers x p = (r, p') \<longrightarrow>
         Pagein a \<notin> set (since p p') \<and> Pagein_freed a \<notin> set (since p p') \<and>
         (\<forall>k. Packetout a k \<notin> set (since p p')) \<and>
         Packetout_freed a \<notin> set (since p p') \<and> heap p' a = None)) \<and>
   (\<forall>a p1 r p'. table_ok p \<and> \<not> have_video p \<and> vstream p \<noteq> Some a \<and>
        g_hash_table_lookup (stream_table p) (serialno (current_page p)) = Some a \<and>
        scan_page x p = (Continue, p1) \<and> \<not> have_video p1 \<and>
        demux_headers x p1 = (r, p') \<longrightarrow>
      Pagein a \<notin> set (since p1 p') \<and> Pagein_freed a \<notin> set (since p1 p') \<and>
      (\<forall>k. Packetout a k \<notin> set (since p1 p')) \<and>
      Packetout_freed a \<notin> set (since p1 p') \<and> heap p' a = None)"
proof -
  have A: "\<forall>c p'. discover_body x p = (c, p') \<longrightarrow>
      (have_video p \<longrightarrow> have_video p' \<and> vstream p' = vstream p) \<and>
      (vstream p' \<noteq> vstream p \<longrightarrow> \<not> have_video p \<and> have_video p')"
    using discover_body_target by blast
  have B: "\<forall>c p'. collect x p = (c, p') \<longrightarrow>
      have_video p' = have_video p \<and> vstream p' = vstream p"
    using collect_target by blast
  have C: "\<forall>r p'. demux_headers x p = (r, p') \<longrightarrow> have_video p \<longrightarrow>
      have_video p' \<and> vstream p' = vstream p"
    using demux_headers_target by blast
  have D: "\<forall>p1 p'. demux_next_page x p = (TRUE, p1) \<and> \<not> eof p1 \<and> bos (current_page p1) \<and>
        have_video p1 \<and> p' = g_hash_table_remove (serialno (current_page p1)) p1 \<longrightarrow>
      discover_body x p = (Continue, p') \<and>
      g_hash_table_lookup (stream_table p') (serialno (current_page p1)) = None \<and>
      since p1 p' = [Table_remove (serialno (current_page p1))] \<and>
      tinfo p' = tinfo p1 \<and> tcomment p' = tcomment p1 \<and> tsetup p' = tsetup p1"
    by (auto simp: discover_body_def scan_page_def Let_def g_hash_table_remove_def called_def
        since_def g_hash_table_lookup_def delete_conv' split: option.splits)
  have E: "\<forall>a p'. table_ok p \<and> \<not> have_video p \<and>
        g_hash_table_lookup (stream_table p) (serialno (current_page p)) = Some a \<and>
        scan_page x p = (Continue, p') \<and> \<not> have_video p' \<longrightarrow>
      Headerin TH_ENOTFORMAT \<in> set (since p p') \<and>
      g_hash_table_lookup (stream_table p') (serialno (current_page p)) = None \<and>
      heap p' a = None \<and> a < brk p' \<and> a \<notin> snd ` set (stream_table p') \<and>
      vstream p' = vstream p"
    using scan_page_discards by blast
  have F: "\<forall>a. heap p a = None \<and> a < brk p \<and> a \<notin> snd ` set (stream_table p) \<and>
        vstream p \<noteq> Some a \<longrightarrow>
      (\<forall>c p'. discover x p = (c, p') \<longrightarrow>
         Pagein a \<notin> set (since p p') \<and> Pagein_freed a \<notin> set (since p p') \<and>
         (\<forall>k. Packetout a k \<notin> set (since p p')) \<and>
         Packetout_freed a \<notin> set (since p p') \<and> heap p' a = None) \<and>
      (\<forall>c p'. collect x p = (c, p') \<longrightarrow>
         Pagein a \<notin> set (since p p') \<and> Pagein_freed a \<notin> set (since p p') \<and>
         (\<forall>k. Packetout a k \<notin> set (since p p')) \<and>
         Packetout_freed a \<notin> set (since p p') \<and> heap p' a = None) \<and>
      (\<forall>r p'. demux_headers x p = (r, p') \<longrightarrow>
         Pagein a \<notin> set (since p p') \<and> Pagein_freed a \<notin> set (since p p') \<and>
         (\<forall>k. Packetout a k \<notin> set (since p p')) \<and>
         Packetout_freed a \<notin> set (since p p') \<and> heap p' a = None)"
  proof (intro allI impI)
    fix a
    assume "heap p a = None \<and> a < brk p \<and> a \<notin> snd ` set (stream_table p) \<and>
        vstream p \<noteq> Some a"
    then have f: "forgotten a p"
      by (simp add: forgotten_def)
    have 1: "\<forall>c p'. discover x p = (c, p') \<longrightarrow>
         Pagein a \<notin> set (since p p') \<and> Pagein_freed a \<notin> set (since p p') \<and>
         (\<forall>k. Packetout a k \<notin> set (since p p')) \<and>
         Packetout_freed a \<notin> set (since p p') \<and> heap p' a = None"
      using undisturbed_since [OF discover_undisturbed [OF _ f]] by blast
    have 2: "\<forall>c p'. collect x p = (c, p') \<longrightarrow>
         Pagein a \<notin> set (since p p') \<and> Pagein_freed a \<notin> set (since p p') \<and>
         (\<forall>k. Packetout a k \<notin> set (since p p')) \<and>
         Packetout_freed a \<notin> set (since p p') \<and> heap p' a = None"
      using undisturbed_since [OF collect_undisturbed [OF _ f]] by blast
    have 3: "\<forall>r p'. demux_headers x p = (r, p') \<longrightarrow>
         Pagein a \<notin> set (since p p') \<and> Pagein_freed a \<notin> set (since p p') \<and>
         (\<forall>k. Packetout a k \<notin> set (since p p')) \<and>
         Packetout_freed a \<notin> set (since p p') \<and> heap p' a = None"
      using undisturbed_since [OF demux_headers_undisturbed [OF _ f]] by blast
    show "(\<forall>c p'. discover x p = (c, p') \<longrightarrow>
         Pagein a \<notin> set (since p p') \<and> Pagein_freed a \<notin> set (since p p') \<and>
         (\<forall>k. Packetout a k \<notin> set (since p p')) \<and>
         Packetout_freed a \<notin> set (since p p') \<and> heap p' a = None) \<and>
      (\<forall>c p'. collect x p = (c, p') \<longrightarrow>
         Pagein a \<notin> set (since p p') \<and> Pagein_freed a \<notin> set (since p p') \<and>
         (\<forall>k. Packetout a k \<notin> set (since p p')) \<and>
         Packetout_freed a \<notin> set (since p p') \<and> heap p' a = None) \<and>
      (\<forall>r p'. demux_headers x p = (r, p') \<longrightarrow>
         Pagein a \<notin> set (since p p') \<and> Pagein_freed a \<notin> set (since p p') \<and>
         (\<forall>k. Packetout a k \<notin> set (since p p')) \<and>
         Packetout_freed a \<notin> set (since p p') \<and> heap p' a = None)"
      by (rule conjI [OF 1 conjI [OF 2 3]])
  qed
  have G: "\<forall>a p1 r p'. table_ok p \<and> \<not> have_video p \<and> vstream p \<noteq> Some a \<and>
        g_hash_table_lookup (stream_table p) (serialno (current_page p)) = Some a \<and>
        scan_page x p = (Continue, p1) \<and> \<not> have_video p1 \<and>
        demux_headers x p1 = (r, p') \<longrightarrow>
      Pagein a \<notin> set (since p1 p') \<and> Pagein_freed a \<notin> set (since p1 p') \<and>
      (\<forall>k. Packetout a k \<notin> set (since p1 p')) \<and>
      Packetout_freed a \<notin> set (since p1 p') \<and> heap p' a = None"
  proof (intro allI impI)
    fix a p1 r p'
    assume h: "table_ok p \<and> \<not> have_video p \<and> vstream p \<noteq> Some a \<and>
        g_hash_table_lookup (stream_table p) (serialno (current_page p)) = Some a \<and>
        scan_page x p = (Continue, p1) \<and> \<not> have_video p1 \<and>
        demux_headers x p1 = (r, p')"
    then have "heap p1 a = None \<and> a < brk p1 \<and> a \<notin> snd ` set (stream_table p1) \<and>
        vstream p1 = vstream p"
      using scan_page_discards [of p a x p1] by blast
    with h have f: "forgotten a p1"
      by (simp add: forgotten_def)
    from h have "demux_headers x p1 = (r, p')"
      by blast
    from undisturbed_since [OF demux_headers_undisturbed [OF this f]]
    show "Pagein a \<notin> set (since p1 p') \<and> Pagein_freed a \<notin> set (since p1 p') \<and>
      (\<forall>k. Packetout a k \<notin> set (since p1 p')) \<and>
      Packetout_freed a \<notin> set (since p1 p') \<and> heap p' a = None" .
  qed
  show ?thesis
    by (rule conjI [OF A conjI [OF B conjI [OF C conjI [OF D conjI [OF E conjI [OF F G]]]]]])
qed

theorem one_target_witness:
  "\<not> have_video (snd (discover_body (sample_ext []) (blank_player 3 three_streams))) \<and>
   have_video (snd (discover_body (sample_ext [])
     (snd (discover_body (sample_ext []) (blank_player 3 three_streams))))) \<and>
   vstream (snd (discover_body (sample_ext []) (snd (discover_body (sample_ext [])
     (snd (discover_body (sample_ext []) (blank_player 3 three_streams))))))) = Some 1 \<and>
   vstream (snd (demux_headers (sample_ext []) (snd (discover_body (sample_ext [])
     (snd (discover_body (sample_ext []) (blank_player 3 three_streams))))))) = Some 1 \<and>
   fst (discover_body (sample_ext []) (snd (discover_body (sample_ext [])
     (snd (discover_body (sample_ext []) (blank_player 3 three_streams)))))) = Continue \<and>
   heap (snd (scan_page (sample_ext [])
     (snd (demux_next_page (sample_ext []) (blank_player 3 three_streams))))) 0 = None \<and>
   Packetout 0 1 \<notin> set (since (snd (discover_body (sample_ext []) (blank_player 3 three_streams)))
     (snd (demux_headers (sample_ext [])
        (snd (discover_body (sample_ext []) (blank_player 3 three_streams)))))) \<and>
   Packetout_freed 0 \<notin> set (since
     (snd (discover_body (sample_ext []) (blank_player 3 three_streams)))
     (snd (demux_headers (sample_ext [])
        (snd (discover_body (sample_ext []) (blank_player 3 three_streams)))))) \<and>
   Pagein_freed 0 \<notin> set (since
     (snd (scan_page (sample_ext [])
        (snd (demux_next_page (sample_ext []) (blank_player 3 three_streams)))))
     (snd (demux_headers (sample_ext [])
        (snd (scan_page (sample_ext [])
           (snd (demux_next_page (sample_ext []) (blank_player 3 three_streams)))))))) \<and>
   Packetout 1 1 \<in> set (since (snd (discover_body (sample_ext []) (blank_player 3 three_streams)))
     (snd (demux_headers (sample_ext [])
        (snd (discover_body (sample_ext []) (blank_player 3 three_streams)))))) \<and>
   Packetout 0 1 \<in> set (calls
     (snd (discover_body (sample_ext []) (blank_player 3 three_streams))))"
proof -
  let ?x = "sample_ext []"
  let ?a = "blank_player 3 three_streams"
  let ?r = "snd (demux_next_page ?x ?a)"
  let ?s = "snd (scan_page ?x ?r)"
  let ?b = "snd (discover_body ?x ?a)"
  let ?c = "snd (discover_body ?x ?b)"
  let ?n = "snd (demux_next_page ?x ?c)"
  let ?d = "snd (discover_body ?x ?c)"
  have pc: "discover_body ?x ?c = (fst (discover_body ?x ?c), ?d)"
    and pb: "discover_body ?x ?b = (fst (discover_body ?x ?b), ?c)"
    and ph: "demux_headers ?x ?c = (fst (demux_headers ?x ?c), snd (demux_headers ?x ?c))"
    and pg: "demux_headers ?x ?b = (fst (demux_headers ?x ?b), snd (demux_headers ?x ?b))"
    and ps: "demux_headers ?x ?s = (fst (demux_headers ?x ?s), snd (demux_headers ?x ?s))"
    by simp_all
  have hc: "have_video ?c" and vc: "vstream ?c = Some 1" and vb: "vstream ?b = None"
    by code_simp+
  from one_target [of ?x ?c] pc hc vc have 1: "vstream ?d = Some 1"
    by metis
  from one_target [of ?x ?b] pb vb vc have 2: "\<not> have_video ?b \<and> have_video ?c"
    by (metis option.distinct(1))
  from one_target [of ?x ?c] ph hc vc have 3: "vstream (snd (demux_headers ?x ?c)) = Some 1"
    by metis
  have "fst (demux_next_page ?x ?c) = TRUE"
    by code_simp
  then have n: "demux_next_page ?x ?c = (TRUE, ?n)"
    by (metis prod.collapse)
  have nn: "\<not> eof ?n" "bos (current_page ?n)" "have_video ?n"
    by code_simp+
  from one_target [of ?x ?c] n nn
  have "discover_body ?x ?c = (Continue, g_hash_table_remove (serialno (current_page ?n)) ?n)"
    by blast
  then have 4: "fst (discover_body ?x ?c) = Continue"
    by simp
  have ok: "table_ok ?r"
    by (rule conjunct2 [OF demux_next_page_ok [of ?a ?x "fst (demux_next_page ?x ?a)"]])
      (simp_all add: table_ok_def blank_player_def)
  have r: "\<not> have_video ?r"
    "g_hash_table_lookup (stream_table ?r) (serialno (current_page ?r)) = Some 0"
    "fst (scan_page ?x ?r) = Continue" "\<not> have_video ?s" "vstream ?r \<noteq> Some 0"
    by code_simp+
  from r(3) have sc: "scan_page ?x ?r = (Continue, ?s)"
    by (metis prod.collapse)
  from one_target [of ?x ?r] ok r(1,2,4) sc have 5: "heap ?s 0 = None"
    by blast
  have d: "heap ?b 0 = None" "0 < brk ?b" "0 \<notin> snd ` set (stream_table ?b)"
    "vstream ?b \<noteq> Some 0"
    by code_simp+
  from one_target [of ?x ?b] d pg
  have 6: "Packetout 0 1 \<notin> set (since ?b (snd (demux_headers ?x ?b))) \<and>
      Packetout_freed 0 \<notin> set (since ?b (snd (demux_headers ?x ?b)))"
    by blast
  from one_target [of ?x ?r] ok r(1,2,4,5) sc ps
  have 7: "Pagein_freed 0 \<notin> set (since ?s (snd (demux_headers ?x ?s)))"
    by blast
  have 8: "Packetout 1 1 \<in> set (since ?b (snd (demux_headers ?x ?b)))"
    "Packetout 0 1 \<in> set (calls ?b)"
    by code_simp+
  from 1 2 3 4 5 6 7 8 show ?thesis
    by simp
qed

subsection \<open>Routing a page\<close>

text \<open>
  C6. Routing a page into a well-formed registry (lines 72 to 85) never fails. If the
  table has an entry for the page's serial number, the table is unchanged and the page's
  segments are appended to that entry's stream. If it has none and the page begins a
  stream, a new stream initialised with the serial number is allocated, registered
  under it, and holds the page's segments. If it has none and the page does not begin a
  stream, nothing changes at all.
\<close>

theorem route_page:
  assumes "table_ok p" and "dispatch_page p = (r, p')"
  shows "r = TRUE \<and>
    (\<forall>a. g_hash_table_lookup (stream_table p) (serialno (current_page p)) = Some a \<longrightarrow>
       stream_table p' = stream_table p \<and>
       (\<exists>os. heap p a = Some os \<and> os_serialno os = serialno (current_page p) \<and>
          heap p' = (heap p)(a \<mapsto> os\<lparr>lacing := lacing os @ body (current_page p)\<rparr>))) \<and>
    (g_hash_table_lookup (stream_table p) (serialno (current_page p)) = None \<and>
     bos (current_page p) \<longrightarrow>
       stream_table p' = stream_table p @ [(serialno (current_page p), brk p)] \<and>
       g_hash_table_lookup (stream_table p') (serialno (current_page p)) = Some (brk p) \<and>
       heap p' = (heap p)(brk p \<mapsto>
          \<lparr>os_serialno = serialno (current_page p), lacing = body (current_page p)\<rparr>)) \<and>
    (g_hash_table_lookup (stream_table p) (serialno (current_page p)) = None \<and>
     \<not> bos (current_page p) \<longrightarrow> p' = p)"
proof -
  let ?s = "serialno (current_page p)"
  from dispatch_page_ok [OF assms] have r: "r = TRUE"
    by simp
  have A: "stream_table p' = stream_table p \<and>
       (\<exists>os. heap p a = Some os \<and> os_serialno os = ?s \<and>
          heap p' = (heap p)(a \<mapsto> os\<lparr>lacing := lacing os @ body (current_page p)\<rparr>))"
    if l: "g_hash_table_lookup (stream_table p) ?s = Some a" for a
  proof -
    from table_ok_lookup [OF assms(1) l] obtain os where
      os: "heap p a = Some os" "os_serialno os = ?s"
      by blast
    with l assms(2) show ?thesis
      by (auto simp: dispatch_page_def Let_def called_def ogg_stream_pagein_def)
  qed
  have B: "stream_table p' = stream_table p @ [(?s, brk p)] \<and>
       g_hash_table_lookup (stream_table p') ?s = Some (brk p) \<and>
       heap p' = (heap p)(brk p \<mapsto> \<lparr>os_serialno = ?s, lacing = body (current_page p)\<rparr>)"
    if l: "g_hash_table_lookup (stream_table p) ?s = None" and b: "bos (current_page p)"
  proof -
    from l have "?s \<notin> fst ` set (stream_table p)"
      by (simp add: g_hash_table_lookup_def map_of_eq_None_iff)
    then have "AList.update ?s (brk p) (stream_table p) = stream_table p @ [(?s, brk p)]"
      by (rule update_fresh)
    with l b assms(2) show ?thesis
      by (auto simp: dispatch_page_def Let_def called_def ogg_stream_pagein_def
          ogg_stream_init_def g_hash_table_lookup_def map_add_def)
  qed
  have C: "p' = p"
    if "g_hash_table_lookup (stream_table p) ?s = None" and "\<not> bos (current_page p)"
    using that assms(2) by (simp add: dispatch_page_def)
  from r A B C show ?thesis
    by blast
qed

theorem route_page_witness:
  "table_ok (routing_player video_setup) \<and>
   heap (snd (dispatch_page (routing_player video_setup))) 0 =
     Some \<lparr>os_serialno = 20, lacing = [Cont [130], Term [9], Term [0, 0]]\<rparr> \<and>
   stream_table (snd (dispatch_page (routing_player audio_bos))) = [(20, 0), (10, 1)] \<and>
   heap (snd (dispatch_page (routing_player audio_bos))) 1 =
     Some \<lparr>os_serialno = 10, lacing = [Term [1, 118]]\<rparr> \<and>
   snd (dispatch_page (routing_player audio_more)) = routing_player audio_more"
proof -
  have ok: "table_ok (routing_player og)" for og
    by (simp add: table_ok_def routing_player_def blank_player_def)
  have d: "dispatch_page (routing_player og) =
      (fst (dispatch_page (routing_player og)), snd (dispatch_page (routing_player og)))" for og
    by simp
  have l: "g_hash_table_lookup (stream_table (routing_player video_setup))
        (serialno (current_page (routing_player video_setup))) = Some 0"
    "g_hash_table_lookup (stream_table (routing_player audio_bos))
        (serialno (current_page (routing_player audio_bos))) = None"
    "g_hash_table_lookup (stream_table (routing_player audio_more))
        (serialno (current_page (routing_player audio_more))) = None"
    "bos (current_page (routing_player audio_bos))"
    "\<not> bos (current_page (routing_player audio_more))"
    by (simp_all add: routing_player_def blank_player_def g_hash_table_lookup_def
        video_setup_def audio_bos_def audio_more_def)
  from route_page [OF ok d, of video_setup] l(1)
  have 1: "heap (snd (dispatch_page (routing_player video_setup))) 0 =
      Some \<lparr>os_serialno = 20, lacing = [Cont [130], Term [9], Term [0, 0]]\<rparr>"
    by (auto simp: routing_player_def blank_player_def video_setup_def)
  from route_page [OF ok d, of audio_bos] l(2,4)
  have 2: "stream_table (snd (dispatch_page (routing_player audio_bos))) = [(20, 0), (10, 1)]
      \<and> heap (snd (dispatch_page (routing_player audio_bos))) 1 =
          Some \<lparr>os_serialno = 10, lacing = [Term [1, 118]]\<rparr>"
    by (auto simp: routing_player_def blank_player_def audio_bos_def)
  from route_page [OF ok d, of audio_more] l(3,5)
  have 3: "snd (dispatch_page (routing_player audio_more)) = routing_player audio_more"
    by blast
  from ok 1 2 3 show ?thesis
    by simp
qed

subsection \<open>Reads that bring nothing\<close>

text \<open>
  C7. In any call of \<^verbatim>\<open>demux_next_page\<close>, a read that returns 0 is the last thing the
  call does: it returns \<^verbatim>\<open>TRUE\<close> with the end-of-input flag set, no page has come out
  of the sync layer, and the current page and the registry are as before. A read that
  returns a negative count is the last thing the call does too: it returns \<^verbatim>\<open>FALSE\<close>
  with an error of the domain \<^verbatim>\<open>G_FILE_ERROR\<close> whose code is made from \<^verbatim>\<open>errno\<close> and
  whose message carries \<^verbatim>\<open>g_strerror(errno)\<close>.
\<close>

theorem read_results:
  assumes "demux_next_page x p = (r, p')"
  shows "calls p' = calls p @ since p p' \<and>
    (\<forall>e. Read 0 e \<in> set (since p p') \<longrightarrow>
       last (since p p') = Read 0 e \<and> r = TRUE \<and> eof p' \<and> Pageout 1 \<notin> set (since p p') \<and>
       current_page p' = current_page p \<and> kept p p') \<and>
    (\<forall>n e. n < 0 \<longrightarrow> Read n e \<in> set (since p p') \<longrightarrow>
       last (since p p') = Read n e \<and>
       r = FALSE (G_FILE_ERROR (g_file_error_from_errno x e)
             (''Failed to read video: '' @ g_strerror x e)))"
proof -
  obtain c p1 where l: "page_loop x p = (c, p1)"
    by (cases "page_loop x p")
  from page_loop_cases [OF l] obtain q cs where
    q: "retried p q cs" and b: "page_body x q = (c, p1)" and c: "c \<noteq> Continue"
    by blast
  let ?r = "fst (ogg_sync_pageout (osync q) (current_page q))"
  let ?k = "fst (sys_read (input q))"
  note pb = page_body_cases [OF b]
  from q have cq: "calls q = calls p @ cs" and rt: "list_all retry cs"
    by (simp_all add: retried_def)
  show ?thesis
  proof (cases "?r = 1")
    case True
    with pb have br: "c = Break" and c1: "calls p1 = calls q @ [Pageout 1]"
      by simp_all
    with l assms have "dispatch_page p1 = (r, p')"
      by (simp add: demux_next_page_def)
    from dispatch_page_calls [OF this] obtain ds where
      ds: "calls p' = calls p1 @ ds" "\<forall>n e. Read n e \<notin> set ds"
      by blast
    with cq c1 have s: "since p p' = cs @ Pageout 1 # ds"
      by (simp add: since_def)
    with ds cq c1 rt show ?thesis
      by (auto dest: retry_Read)
  next
    case False
    with pb c have c1: "calls p1 = calls q @ [Pageout ?r, Read (bytes ?k) (errno ?k)]"
      and k: "bytes ?k \<le> 0" and cr: "\<exists>v. c = Return v"
      by (auto split: if_splits)
    with l assms have r: "c = Return r" "p' = p1"
      by (auto simp: demux_next_page_def)
    from cq c1 r have s: "since p p' = cs @ [Pageout ?r, Read (bytes ?k) (errno ?k)]"
      by (simp add: since_def)
    from pb False r q have "kept p p'" "current_page p' = current_page p"
      by (auto simp: retried_def kept_def)
    with s cq c1 r pb False rt k show ?thesis
      by (auto dest: retry_Read retry_Pageout split: if_splits)
  qed
qed

theorem read_results_witness:
  "fst (demux_next_page (sample_ext []) (blank_player 3 [])) = TRUE \<and>
   eof (snd (demux_next_page (sample_ext []) (blank_player 3 []))) \<and>
   fst (demux_next_page (sample_ext []) (blank_player 3 failing_file)) =
     FALSE (G_FILE_ERROR 6 ''Failed to read video: Input/output error'')"
proof -
  let ?a = "demux_next_page (sample_ext []) (blank_player 3 [])"
  let ?b = "demux_next_page (sample_ext []) (blank_player 3 failing_file)"
  have a: "Read 0 0 \<in> set (since (blank_player 3 []) (snd ?a))"
    by code_simp
  have b: "Read (- 1) 5 \<in> set (since (blank_player 3 failing_file) (snd ?b))"
    by code_simp
  have c: "g_file_error_from_errno (sample_ext []) 5 = 6"
    "g_strerror (sample_ext []) 5 = ''Input/output error''"
    by (simp_all add: sample_ext_def)
  from read_results [of "sample_ext []" "blank_player 3 []" "fst ?a" "snd ?a"] a
  have "fst ?a = TRUE \<and> eof (snd ?a)"
    by simp
  moreover from read_results [of "sample_ext []" "blank_player 3 failing_file" "fst ?b" "snd ?b"] b
  have "fst ?b = FALSE (G_FILE_ERROR (g_file_error_from_errno (sample_ext []) 5)
      (''Failed to read video: '' @ g_strerror (sample_ext []) 5))"
    by (metis less_numeral_extra(3) neg_less_0_iff_less prod.collapse zero_less_one) 
  ultimately show ?thesis
    using c by simp
qed

subsection \<open>The first packet of a stream\<close>

text \<open>
  C8. In the first loop, with a well-formed registry, when \<^verbatim>\<open>demux_next_page\<close> has
  delivered a beginning-of-stream page and no video stream has been found yet, the
  stream of that page is registered and alive, and the pass makes exactly one call of
  \<^verbatim>\<open>ogg_stream_packetout\<close>, on that stream. If that call does not return 1, the pass
  returns \<^verbatim>\<open>FALSE\<close> with \<^verbatim>\<open>VIDEO_PLAYER_BAD_HEADERS\<close>, and so does \<^verbatim>\<open>demux_headers\<close>.
\<close>

theorem first_packet:
  assumes "table_ok p0" and "demux_next_page x p0 = (TRUE, p)" and "\<not> eof p"
    and "bos (current_page p)" and "\<not> have_video p" and "scan_page x p = (c, p')"
  shows "\<exists>a os. g_hash_table_lookup (stream_table p) (serialno (current_page p)) = Some a \<and>
      heap p a = Some os \<and>
      filter is_Packetout (since p p') = [Packetout a (fst (ogg_stream_packetout os []))] \<and>
      (fst (ogg_stream_packetout os []) \<noteq> 1 \<longrightarrow>
         c = Return (FALSE (VIDEO_PLAYER_ERROR VIDEO_PLAYER_BAD_HEADERS
               ''Bad headers in video file.'')) \<and>
         demux_headers x p0 = (FALSE (VIDEO_PLAYER_ERROR VIDEO_PLAYER_BAD_HEADERS
               ''Bad headers in video file.''), p'))"
proof -
  let ?s = "serialno (current_page p)"
  from demux_next_page_routed [OF assms(1-4)] obtain a os where
    l: "g_hash_table_lookup (stream_table p) ?s = Some a" and h: "heap p a = Some os"
    by blast
  obtain r os' pkt where po: "ogg_stream_packetout os [] = (r, os', pkt)"
    by (cases "ogg_stream_packetout os []")
  have f: "filter is_Packetout (since p p') = [Packetout a r]"
    using assms(5,6) l h po
    by (auto simp: scan_page_def Let_def called_def since_def g_hash_table_remove_def
        split: prod.splits if_splits option.splits)
  have e: "c = Return (FALSE (VIDEO_PLAYER_ERROR VIDEO_PLAYER_BAD_HEADERS
        ''Bad headers in video file.''))" if "r \<noteq> 1"
    using that assms(5,6) l h po by (simp add: scan_page_def Let_def)
  have "demux_headers x p0 = (FALSE (VIDEO_PLAYER_ERROR VIDEO_PLAYER_BAD_HEADERS
        ''Bad headers in video file.''), p')" if "r \<noteq> 1"
  proof -
    from e [OF that] assms(2,3,4,6)
    have "discover_body x p0 = (Return (FALSE (VIDEO_PLAYER_ERROR VIDEO_PLAYER_BAD_HEADERS
        ''Bad headers in video file.'')), p')"
      by (simp add: discover_body_def)
    then show ?thesis
      by (simp add: discover_body_Return)
  qed
  with l h po f e show ?thesis
    by auto
qed

theorem first_packet_witness:
  "filter is_Packetout
     (since (snd (demux_next_page (sample_ext []) (blank_player 3 split_first_packet)))
        (snd (scan_page (sample_ext [])
           (snd (demux_next_page (sample_ext []) (blank_player 3 split_first_packet))))))
     = [Packetout 0 0] \<and>
   fst (demux_headers (sample_ext []) (blank_player 3 split_first_packet)) =
     FALSE (VIDEO_PLAYER_ERROR VIDEO_PLAYER_BAD_HEADERS ''Bad headers in video file.'')"
proof -
  let ?x = "sample_ext []"
  let ?i = "blank_player 3 split_first_packet"
  let ?p = "snd (demux_next_page ?x ?i)"
  let ?os = "\<lparr>os_serialno = 10, lacing = [Cont [1, 118]]\<rparr>"
  have ok: "table_ok ?i"
    by (simp add: table_ok_def blank_player_def)
  have "fst (demux_next_page ?x ?i) = TRUE"
    by code_simp
  then have n: "demux_next_page ?x ?i = (TRUE, ?p)"
    by (metis prod.collapse)
  have e: "\<not> eof ?p" and b: "bos (current_page ?p)" and v: "\<not> have_video ?p"
    by code_simp+
  have s: "scan_page ?x ?p = (fst (scan_page ?x ?p), snd (scan_page ?x ?p))"
    by simp
  have l: "g_hash_table_lookup (stream_table ?p) (serialno (current_page ?p)) = Some 0"
    by code_simp
  have h: "heap ?p 0 = Some ?os"
    by code_simp
  have r: "fst (ogg_stream_packetout ?os []) = 0"
    by code_simp
  from first_packet [OF ok n e b v s] l h r show ?thesis
    by auto
qed

subsection \<open>Teardown\<close>

text \<open>
  C9. \<^verbatim>\<open>video_player_destroy\<close>, on any player, frees the decode context exactly when
  there is one and the setup state exactly when there is one, and then clears the
  comment and the info, destroys the table (every stream registered in it is freed),
  clears the sync state, closes the descriptor and frees the player. When the file
  opens and \<^verbatim>\<open>demux_headers\<close> returns \<^verbatim>\<open>FALSE\<close>, at whatever point,
  \<^verbatim>\<open>video_player_new\<close> makes exactly these calls on the player as
  \<^verbatim>\<open>demux_headers\<close> left it and returns \<^verbatim>\<open>NULL\<close> with the error of \<^verbatim>\<open>demux_headers\<close>;
  there is no decode context to free then.
\<close>

theorem teardown_on_failure:
  "calls (video_player_destroy q) = calls q @ releases q \<and>
   (\<forall>k. Decode_free k \<in> set (releases q) \<longleftrightarrow> vdecoder q = Some k) \<and>
   (\<forall>t. Setup_free t \<in> set (releases q) \<longleftrightarrow> tsetup q = Some t) \<and>
   (\<forall>s a. (s, a) \<in> set (stream_table q) \<longrightarrow> heap (video_player_destroy q) a = None) \<and>
   (\<forall>d e f err p.
      sys_open x name = (d, e, f) \<and> 0 \<le> d \<and>
      demux_headers x (blank_player d f) = (FALSE err, p) \<longrightarrow>
        video_player_new x name = Null err (calls (video_player_destroy p)) \<and>
        failure (video_player_new x name) = Some (err, calls p @ releases p) \<and>
        handle (video_player_new x name) = None \<and>
        vdecoder p = None \<and> (\<forall>k. Decode_free k \<notin> set (releases p)))"
proof -
  have A: "calls (video_player_destroy q) = calls q @ releases q" for q
    by (simp add: video_player_destroy_def releases_def Let_def called_def
        split: option.splits)
  have B: "\<forall>k. Decode_free k \<in> set (releases q) \<longleftrightarrow> vdecoder q = Some k" for q
    by (auto simp: releases_def split: option.splits)
  have C: "\<forall>t. Setup_free t \<in> set (releases q) \<longleftrightarrow> tsetup q = Some t"
    by (auto simp: releases_def split: option.splits)
  have D: "\<forall>s a. (s, a) \<in> set (stream_table q) \<longrightarrow> heap (video_player_destroy q) a = None"
    by (force simp: video_player_destroy_def Let_def called_def split: option.splits)
  have E: "\<forall>d e f err p.
      sys_open x name = (d, e, f) \<and> 0 \<le> d \<and>
      demux_headers x (blank_player d f) = (FALSE err, p) \<longrightarrow>
        video_player_new x name = Null err (calls (video_player_destroy p)) \<and>
        failure (video_player_new x name) = Some (err, calls p @ releases p) \<and>
        handle (video_player_new x name) = None \<and>
        vdecoder p = None \<and> (\<forall>k. Decode_free k \<notin> set (releases p))"
  proof (intro allI impI)
    fix d e f err p
    assume h: "sys_open x name = (d, e, f) \<and> 0 \<le> d \<and>
      demux_headers x (blank_player d f) = (FALSE err, p)"
    then have n: "video_player_new x name = Null err (calls (video_player_destroy p))"
      by (simp add: video_player_new_def Let_def blank_player_def)
    from h demux_headers_alloc [of x "blank_player d f" "FALSE err" p]
    have "without {Decode_alloc} (blank_player d f) p"
      by simp
    then have v: "vdecoder p = None"
      by (simp add: without_def blank_player_def)
    with B [of p] have "\<forall>k. Decode_free k \<notin> set (releases p)"
      by simp
    with n v A [of p]
    show "video_player_new x name = Null err (calls (video_player_destroy p)) \<and>
        failure (video_player_new x name) = Some (err, calls p @ releases p) \<and>
        handle (video_player_new x name) = None \<and>
        vdecoder p = None \<and> (\<forall>k. Decode_free k \<notin> set (releases p))"
      by simp
  qed
  show ?thesis
    by (rule conjI [OF A conjI [OF B conjI [OF C conjI [OF D E]]]])
qed

theorem teardown_on_failure_witness:
  "failure (video_player_new (sample_ext no_data_file) ''a.ogv'') =
     Some (VIDEO_PLAYER_ERROR VIDEO_PLAYER_BAD_HEADERS
             ''Failed to find all necessary Theora headers.'',
           calls (snd (demux_headers (sample_ext no_data_file) (blank_player 3 no_data_file))) @
           [Setup_free 1, Comment_clear, Info_clear, Table_destroy, Sync_clear, Close 3,
            Free_player]) \<and>
   heap (video_player_destroy (routing_player video_setup)) 0 = None \<and>
   Decode_free 7 \<in> set (releases ((routing_player video_setup)\<lparr>vdecoder := Some 7\<rparr>))"
proof -
  let ?x = "sample_ext no_data_file"
  let ?p = "snd (demux_headers ?x (blank_player 3 no_data_file))"
  let ?e = "VIDEO_PLAYER_ERROR VIDEO_PLAYER_BAD_HEADERS
      ''Failed to find all necessary Theora headers.''"
  have o: "sys_open ?x ''a.ogv'' = (3, 0, no_data_file)"
    by (simp add: sample_ext_def)
  have "fst (demux_headers ?x (blank_player 3 no_data_file)) = FALSE ?e"
    by code_simp
  then have d: "demux_headers ?x (blank_player 3 no_data_file) = (FALSE ?e, ?p)"
    by (metis prod.collapse)
  have r: "releases ?p =
      [Setup_free 1, Comment_clear, Info_clear, Table_destroy, Sync_clear, Close 3, Free_player]"
    by code_simp
  from teardown_on_failure [of ?p ?x "''a.ogv''"] o d
  have 1: "failure (video_player_new ?x ''a.ogv'') = Some (?e, calls ?p @ releases ?p)"
    by simp
  have t: "(20, 0) \<in> set (stream_table (routing_player video_setup))"
    by (simp add: routing_player_def)
  from teardown_on_failure [of "routing_player video_setup" ?x "''a.ogv''"] t
  have 2: "heap (video_player_destroy (routing_player video_setup)) 0 = None"
    by blast
  have v: "vdecoder ((routing_player video_setup)\<lparr>vdecoder := Some 7\<rparr>) = Some 7"
    by simp
  from teardown_on_failure [of "(routing_player video_setup)\<lparr>vdecoder := Some 7\<rparr>" ?x "''a.ogv''"] v
  have 3: "Decode_free 7 \<in> set (releases ((routing_player video_setup)\<lparr>vdecoder := Some 7\<rparr>))"
    by blast
  from 1 2 3 r show ?thesis
    by simp
qed

subsection \<open>The end-of-input flag\<close>

text \<open>
  C10. A call of \<^verbatim>\<open>demux_next_page\<close> that meets a zero-byte read returns \<^verbatim>\<open>TRUE\<close> with
  the current page as it was, and no such read happens in a call in which a page comes
  out. Both returns are \<^verbatim>\<open>TRUE\<close>; when the flag was clear before the call, it is set
  after it exactly when the call met the zero-byte read, and clear exactly when a page
  came out. A flag that is set stays set through \<^verbatim>\<open>demux_next_page\<close>,
  \<^verbatim>\<open>demux_headers\<close> and \<^verbatim>\<open>video_player_destroy\<close>.
\<close>

theorem eof_flag:
  "(\<forall>r p'. demux_next_page x p = (r, p') \<longrightarrow>
      ((\<exists>e. Read 0 e \<in> set (since p p')) \<longrightarrow> r = TRUE \<and> current_page p' = current_page p) \<and>
      (Pageout 1 \<in> set (since p p') \<longrightarrow> (\<forall>e. Read 0 e \<notin> set (since p p'))) \<and>
      (r = TRUE \<and> \<not> eof p \<longrightarrow>
         (eof p' \<longleftrightarrow> (\<exists>e. Read 0 e \<in> set (since p p'))) \<and>
         (\<not> eof p' \<longleftrightarrow> Pageout 1 \<in> set (since p p'))) \<and>
      (eof p \<longrightarrow> eof p')) \<and>
   (\<forall>r p'. demux_headers x p = (r, p') \<longrightarrow> eof p \<longrightarrow> eof p') \<and>
   (eof p \<longrightarrow> eof (video_player_destroy p))"
proof -
  have main: "((\<exists>e. Read 0 e \<in> set (since p p')) \<longrightarrow> r = TRUE \<and> current_page p' = current_page p) \<and>
      (Pageout 1 \<in> set (since p p') \<longrightarrow> (\<forall>e. Read 0 e \<notin> set (since p p'))) \<and>
      (r = TRUE \<and> \<not> eof p \<longrightarrow>
         (eof p' \<longleftrightarrow> (\<exists>e. Read 0 e \<in> set (since p p'))) \<and>
         (\<not> eof p' \<longleftrightarrow> Pageout 1 \<in> set (since p p'))) \<and>
      (eof p \<longrightarrow> eof p')"
    if n: "demux_next_page x p = (r, p')" for r p'
  proof -
    note mono = demux_next_page_eof [OF n]
    obtain c p1 where l: "page_loop x p = (c, p1)"
      by (cases "page_loop x p")
    from page_loop_cases [OF l] obtain q cs where
      q: "retried p q cs" and b: "page_body x q = (c, p1)" and c: "c \<noteq> Continue"
      by blast
    let ?r = "fst (ogg_sync_pageout (osync q) (current_page q))"
    let ?k = "fst (sys_read (input q))"
    note pb = page_body_cases [OF b]
    from q have cq: "calls q = calls p @ cs" and rt: "list_all retry cs"
      and eq: "eof q = eof p" and pq: "current_page q = current_page p"
      by (simp_all add: retried_def)
    show ?thesis
    proof (cases "?r = 1")
      case True
      with pb have br: "c = Break" and c1: "calls p1 = calls q @ [Pageout 1]"
        and e1: "eof p1 = eof q"
        by simp_all
      with l n have "dispatch_page p1 = (r, p')"
        by (simp add: demux_next_page_def)
      from dispatch_page_calls [OF this] obtain ds where
        ds: "calls p' = calls p1 @ ds" "\<forall>n e. Read n e \<notin> set ds" "eof p' = eof p1"
        by blast
      with cq c1 have s: "since p p' = cs @ Pageout 1 # ds"
        by (simp add: since_def)
      with ds rt e1 eq mono show ?thesis
        by (auto dest: retry_Read)
    next
      case False
      with pb c have c1: "calls p1 = calls q @ [Pageout ?r, Read (bytes ?k) (errno ?k)]"
        and k: "bytes ?k \<le> 0" and cr: "\<exists>v. c = Return v"
        and pp: "current_page p1 = current_page q"
        by (auto split: if_splits)
      with l n have r: "c = Return r" "p' = p1"
        by (auto simp: demux_next_page_def)
      from cq c1 r have s: "since p p' = cs @ [Pageout ?r, Read (bytes ?k) (errno ?k)]"
        by (simp add: since_def)
      with r pb False rt k pp pq eq mono show ?thesis
        by (auto dest: retry_Read retry_Pageout split: if_splits)
    qed
  qed
  have A: "\<forall>r p'. demux_next_page x p = (r, p') \<longrightarrow>
      ((\<exists>e. Read 0 e \<in> set (since p p')) \<longrightarrow> r = TRUE \<and> current_page p' = current_page p) \<and>
      (Pageout 1 \<in> set (since p p') \<longrightarrow> (\<forall>e. Read 0 e \<notin> set (since p p'))) \<and>
      (r = TRUE \<and> \<not> eof p \<longrightarrow>
         (eof p' \<longleftrightarrow> (\<exists>e. Read 0 e \<in> set (since p p'))) \<and>
         (\<not> eof p' \<longleftrightarrow> Pageout 1 \<in> set (since p p'))) \<and>
      (eof p \<longrightarrow> eof p')"
    by (intro allI impI) (rule main)
  have B: "\<forall>r p'. demux_headers x p = (r, p') \<longrightarrow> eof p \<longrightarrow> eof p'"
    using demux_headers_eof by blast
  have C: "eof p \<longrightarrow> eof (video_player_destroy p)"
    by (simp add: video_player_destroy_eof)
  show ?thesis
    by (rule conjI [OF A conjI [OF B C]])
qed

theorem eof_flag_witness:
  "fst (demux_next_page (sample_ext []) (blank_player 3 [])) = TRUE \<and>
   current_page (snd (demux_next_page (sample_ext []) (blank_player 3 []))) =
     current_page (blank_player 3 []) \<and>
   eof (snd (demux_next_page (sample_ext []) (blank_player 3 []))) \<and>
   \<not> eof (snd (demux_next_page (sample_ext []) (blank_player 3 sample_file))) \<and>
   eof (snd (demux_headers (sample_ext []) ((blank_player 3 sample_file)\<lparr>eof := True\<rparr>))) \<and>
   eof (video_player_destroy ((blank_player 3 [])\<lparr>eof := True\<rparr>))"
proof -
  let ?x = "sample_ext []"
  let ?p = "blank_player 3 []"
  let ?q = "blank_player 3 sample_file"
  let ?e = "(blank_player 3 sample_file)\<lparr>eof := True\<rparr>"
  let ?d = "(blank_player 3 [])\<lparr>eof := True\<rparr>"
  have a: "Read 0 0 \<in> set (since ?p (snd (demux_next_page ?x ?p)))"
    by code_simp
  have b: "Pageout 1 \<in> set (since ?q (snd (demux_next_page ?x ?q)))"
    by code_simp
  have c: "fst (demux_next_page ?x ?q) = TRUE"
    by code_simp
  have n: "\<not> eof ?p" "\<not> eof ?q" "eof ?e" "eof ?d"
    by (simp_all add: blank_player_def)
  have pa: "demux_next_page ?x ?p = (fst (demux_next_page ?x ?p), snd (demux_next_page ?x ?p))"
    and pb: "demux_next_page ?x ?q = (fst (demux_next_page ?x ?q), snd (demux_next_page ?x ?q))"
    and pc: "demux_headers ?x ?e = (fst (demux_headers ?x ?e), snd (demux_headers ?x ?e))"
    by simp_all
  from eof_flag [of ?x ?p] pa a n(1)
  have 1: "fst (demux_next_page ?x ?p) = TRUE
      \<and> current_page (snd (demux_next_page ?x ?p)) = current_page ?p
      \<and> eof (snd (demux_next_page ?x ?p))"
    by blast
  from eof_flag [of ?x ?q] pb b c n(2)
  have 2: "\<not> eof (snd (demux_next_page ?x ?q))"
    by blast
  from eof_flag [of ?x ?e] pc n(3)
  have 3: "eof (snd (demux_headers ?x ?e))"
    by blast
  from eof_flag [of ?x ?d] n(4)
  have 4: "eof (video_player_destroy ?d)"
    by blast
  from 1 2 3 4 show ?thesis
    by simp
qed

end
